theory Spec2Isabelle
  imports Complex_Main "HOL-Library.Monad_Syntax" "HOL-Library.AList"
begin

section \<open>JavaScript values\<close>

text \<open>
  The validator works on untyped request data.  A number is an IEEE double in the
  source; here it is \<open>NaN\<close>, an infinity or a finite rational, which is exact for the
  comparisons the validator makes (the rounding of the host's parsers stays inside the
  host functions, see \<open>builtins\<close>).  Negative zero is identified with zero.  A string is a
  list of characters, one per UTF-16 code unit.  An object is an association list of its
  own properties in insertion order.
\<close>

datatype jsnum = NaN | NegInf | Fin rat | PosInf

datatype jsval =
    Undefined
  | Null
  | Bool bool
  | Num jsnum
  | Str string
  | Arr "jsval list"
  | Obj "(string \<times> jsval) list"

text \<open>\<open>a < b\<close> on numbers: false as soon as one side is \<open>NaN\<close>.\<close>

fun num_lt :: "jsnum \<Rightarrow> jsnum \<Rightarrow> bool" where
  "num_lt NaN b = False"
| "num_lt a NaN = False"
| "num_lt PosInf b = False"
| "num_lt a NegInf = False"
| "num_lt NegInf b = True"
| "num_lt a PosInf = True"
| "num_lt (Fin a) (Fin b) = (a < b)"

text \<open>Truthiness of a number: everything but \<open>0\<close> and \<open>NaN\<close>.\<close>

definition truthy_num :: "jsnum \<Rightarrow> bool" where
  "truthy_num n = (n \<noteq> NaN \<and> n \<noteq> Fin 0)"

definition typeof :: "jsval \<Rightarrow> string" where
  "typeof v =
     (case v of
        Undefined \<Rightarrow> ''undefined''
      | Null \<Rightarrow> ''object''
      | Bool b \<Rightarrow> ''boolean''
      | Num n \<Rightarrow> ''number''
      | Str s \<Rightarrow> ''string''
      | Arr xs \<Rightarrow> ''object''
      | Obj kvs \<Rightarrow> ''object'')"

definition isArray :: "jsval \<Rightarrow> bool" where
  "isArray v = (case v of Arr xs \<Rightarrow> True | _ \<Rightarrow> False)"

section \<open>Property access\<close>

text \<open>
  The template literal \<open>`${i}`\<close> of an array index: its decimal digits.
\<close>

definition digit_char :: "nat \<Rightarrow> char" where
  "digit_char d = ''0123456789'' ! d"

definition digit_val :: "char \<Rightarrow> nat" where
  "digit_val c = of_char c - 48"

fun show_nat :: "nat \<Rightarrow> string" where
  "show_nat n = (if n < 10 then [digit_char n] else show_nat (n div 10) @ [digit_char (n mod 10)])"

declare show_nat.simps [simp del]

definition read_nat :: "string \<Rightarrow> nat" where
  "read_nat s = foldl (\<lambda>a c. 10 * a + digit_val c) 0 s"

text \<open>
  A property name addresses an array element when it is the canonical decimal form of an
  index below the length.
\<close>

definition index_of :: "string \<Rightarrow> nat \<Rightarrow> nat option" where
  "index_of k len = (let i = read_nat k in if show_nat i = k \<and> i < len then Some i else None)"

text \<open>
  \<open>name in data\<close>, \<open>data[name]\<close> and \<open>data[name] = v\<close>.  \<open>None\<close> is a thrown
  \<open>TypeError\<close>, the only exception the validator can raise: \<open>in\<close> throws on everything
  that is not an object, reading a property throws on \<open>null\<close> and \<open>undefined\<close>, and
  writing one throws on every primitive (the module is strict code).  Only own data
  properties are modelled: the names an object inherits from its prototype and the
  \<open>length\<close> of an array or a string are not field names here.
\<close>

fun has_property :: "string \<Rightarrow> jsval \<Rightarrow> bool option" where
  "has_property k (Obj kvs) = Some (map_of kvs k \<noteq> None)"
| "has_property k (Arr xs) = Some (index_of k (length xs) \<noteq> None)"
| "has_property k v = None"

fun get :: "string \<Rightarrow> jsval \<Rightarrow> jsval option" where
  "get k (Obj kvs) = Some (case map_of kvs k of None \<Rightarrow> Undefined | Some v \<Rightarrow> v)"
| "get k (Arr xs) = Some (case index_of k (length xs) of None \<Rightarrow> Undefined | Some i \<Rightarrow> xs ! i)"
| "get k (Str s) = Some (case index_of k (length s) of None \<Rightarrow> Undefined | Some i \<Rightarrow> Str [s ! i])"
| "get k (Bool b) = Some Undefined"
| "get k (Num n) = Some Undefined"
| "get k Null = None"
| "get k Undefined = None"

text \<open>
  Writing an index at or beyond the length extends the array with holes (read back as
  \<open>undefined\<close>).  A name that is no index would become a named property of the array
  object, which the value model cannot hold: the array is left as it is.  The validator
  only ever writes a key it has just read a value from.
\<close>

fun set_property :: "string \<Rightarrow> jsval \<Rightarrow> jsval \<Rightarrow> jsval option" where
  "set_property k v (Obj kvs) = Some (Obj (AList.update k v kvs))"
| "set_property k v (Arr xs) =
     (let i = read_nat k in
      if show_nat i = k then
        (if i < length xs then Some (Arr (xs[i := v]))
         else Some (Arr (xs @ replicate (i - length xs) Undefined @ [v])))
      else Some (Arr xs))"
| "set_property k v d = None"

section \<open>Host functions\<close>

text \<open>
  \<open>parseInt\<close>, \<open>parseFloat\<close>, \<open>JSON.parse\<close>, \<open>JSON.stringify\<close> and the conversion of a
  number to a string belong to the JavaScript host, not to the repository.  The validator
  takes them as a parameter, so every theorem below holds whatever they compute.
  \<open>JSON_parse\<close> gives \<open>None\<close> when the host throws a \<open>SyntaxError\<close>; \<open>JSON_stringify\<close>
  gives \<open>None\<close> when the host returns \<open>undefined\<close>.
\<close>

record builtins =
  parseInt :: "jsval \<Rightarrow> jsnum"
  parseFloat :: "jsval \<Rightarrow> jsnum"
  JSON_parse :: "string \<Rightarrow> jsval option"
  JSON_stringify :: "jsval \<Rightarrow> string option"
  Number_toString :: "jsnum \<Rightarrow> string"

section \<open>Schemas and errors\<close>

datatype numeric_type = TInt | TFloat

datatype symbols = Strings "string list" | Numbers "jsnum list"

datatype schema =
    NumericSchema (sname: string) (ntype: numeric_type) (smin: "jsnum option")
      (smax: "jsnum option") (optional: "bool option")
  | StringSchema (sname: string) (slength: "jsnum option") (min_length: "jsnum option")
      (max_length: "jsnum option") (optional: "bool option")
  | BooleanSchema (sname: string) (allowNumeric: "bool option") (optional: "bool option")
  | EnumSchema (sname: string) (symbols: symbols) (optional: "bool option")
  | ArraySchema (sname: string) (elementType: schema) (optional: "bool option")
  | ObjectSchema (sname: string) (fields: "schema list") (optional: "bool option")

text \<open>The discriminant \<open>schema.type\<close>.\<close>

fun stype :: "schema \<Rightarrow> string" where
  "stype (NumericSchema n t mn mx opt) = (case t of TInt \<Rightarrow> ''int'' | TFloat \<Rightarrow> ''float'')"
| "stype (StringSchema n l mn mx opt) = ''string''"
| "stype (BooleanSchema n a opt) = ''boolean''"
| "stype (EnumSchema n syms opt) = ''enum''"
| "stype (ArraySchema n e opt) = ''array''"
| "stype (ObjectSchema n fs opt) = ''object''"

text \<open>\<open>elementSchema.name = `${i}`\<close> on the copy of an element schema.\<close>

fun set_name :: "string \<Rightarrow> schema \<Rightarrow> schema" where
  "set_name k (NumericSchema n t mn mx opt) = NumericSchema k t mn mx opt"
| "set_name k (StringSchema n l mn mx opt) = StringSchema k l mn mx opt"
| "set_name k (BooleanSchema n a opt) = BooleanSchema k a opt"
| "set_name k (EnumSchema n syms opt) = EnumSchema k syms opt"
| "set_name k (ArraySchema n e opt) = ArraySchema k e opt"
| "set_name k (ObjectSchema n fs opt) = ObjectSchema k fs opt"

record SchemaError =
  ename :: string
  etype :: string
  evalue :: jsval
  edescription :: string

text \<open>
  The path of a field below \<open>path\<close>: the expression that \<open>pushError\<close> computes for
  \<open>_name\<close> and the object checker for \<open>_path\<close>.
\<close>

definition error_path :: "string \<Rightarrow> string \<Rightarrow> string" where
  "error_path path n =
     (if path = [] then n
      else if last path = CHR ''['' then path @ n @ '']''
      else path @ ''.'' @ n)"

definition pushError ::
  "SchemaError list \<Rightarrow> string \<Rightarrow> string \<Rightarrow> string \<Rightarrow> jsval \<Rightarrow> string \<Rightarrow> SchemaError list" where
  "pushError errors path n t v desc =
     errors @ [\<lparr>ename = error_path path n, etype = t, evalue = v, edescription = desc\<rparr>]"

section \<open>Type checkers\<close>

text \<open>
  A checker takes the schema, the data bag, the error sink and the path of the containing
  structure.  The source mutates the bag and the sink in place and returns the verdict;
  the model returns the verdict with the new bag and the new sink, or \<open>None\<close> when the
  source throws.
\<close>

type_synonym outcome = "(bool \<times> jsval \<times> SchemaError list) option"

text \<open>\<open>b || b === 0\<close> for an optional numeric bound \<open>b\<close>.\<close>

definition bound_set :: "jsnum option \<Rightarrow> bool" where
  "bound_set b = (case b of None \<Rightarrow> False | Some m \<Rightarrow> truthy_num m \<or> m = Fin 0)"

definition NumberTypeChecker ::
  "builtins \<Rightarrow> schema \<Rightarrow> jsval \<Rightarrow> SchemaError list \<Rightarrow> string \<Rightarrow> outcome" where
  "NumberTypeChecker B schema data errors path = do {
     value \<leftarrow> get (sname schema) data;
     let parsedValue = (if stype schema = ''int'' then parseInt B value else parseFloat B value);
     if parsedValue = NaN then
       Some (False, data,
         pushError errors path (sname schema) (stype schema) value ''not a number'')
     else if bound_set (smin schema) \<and> num_lt parsedValue (the (smin schema)) then
       Some (False, data,
         pushError errors path (sname schema) (stype schema) value ''less than min'')
     else if bound_set (smax schema) \<and> num_lt (the (smax schema)) parsedValue then
       Some (False, data,
         pushError errors path (sname schema) (stype schema) value ''greater than max'')
     else do {
       data' \<leftarrow> set_property (sname schema) (Num parsedValue) data;
       Some (True, data', errors)
     }
   }"

text \<open>
  In the string checker \<open>value\<close> is a string or, when \<open>JSON.stringify\<close> returned
  \<open>undefined\<close>, \<open>undefined\<close>; \<open>value.length\<close> then throws, but only where a bound
  makes the source read it.
\<close>

definition of_value :: "string option \<Rightarrow> jsval" where
  "of_value v = (case v of None \<Rightarrow> Undefined | Some s \<Rightarrow> Str s)"

definition value_length :: "string option \<Rightarrow> jsnum option" where
  "value_length v = map_option (\<lambda>s. Fin (of_nat (length s))) v"

text \<open>
  The three conditions of the string checker: \<open>schema.length && value.length !=
  schema.length\<close>, and the tests against \<open>min_length\<close> and \<open>max_length\<close>.
\<close>

definition length_mismatch :: "schema \<Rightarrow> string option \<Rightarrow> bool option" where
  "length_mismatch schema v =
     (if (case slength schema of None \<Rightarrow> False | Some l \<Rightarrow> truthy_num l)
      then do { n \<leftarrow> value_length v; Some (n \<noteq> the (slength schema)) }
      else Some False)"

definition below_min_length :: "schema \<Rightarrow> string option \<Rightarrow> bool option" where
  "below_min_length schema v =
     (if bound_set (min_length schema)
      then do { n \<leftarrow> value_length v; Some (num_lt n (the (min_length schema))) }
      else Some False)"

definition above_max_length :: "schema \<Rightarrow> string option \<Rightarrow> bool option" where
  "above_max_length schema v =
     (if bound_set (max_length schema)
      then do { n \<leftarrow> value_length v; Some (num_lt (the (max_length schema)) n) }
      else Some False)"

definition TypeChecker_string ::
  "builtins \<Rightarrow> schema \<Rightarrow> jsval \<Rightarrow> SchemaError list \<Rightarrow> string \<Rightarrow> outcome" where
  "TypeChecker_string B schema data errors path = do {
     raw \<leftarrow> get (sname schema) data;
     let value = (case raw of Str s \<Rightarrow> Some s | _ \<Rightarrow> JSON_stringify B raw);
     mismatch \<leftarrow> length_mismatch schema value;
     if mismatch then
       Some (False, data,
         pushError errors path (sname schema) (stype schema) (of_value value) ''length not match'')
     else do {
       short \<leftarrow> below_min_length schema value;
       if short then
         Some (False, data,
           pushError errors path (sname schema) (stype schema) (of_value value)
             ''length less than min'')
       else do {
         long \<leftarrow> above_max_length schema value;
         if long then
           Some (False, data,
             pushError errors path (sname schema) (stype schema) (of_value value)
               ''length greater than max'')
         else do {
           data' \<leftarrow> set_property (sname schema) (of_value value) data;
           Some (True, data', errors)
         }
       }
     }
   }"

definition allowedValues :: "schema \<Rightarrow> jsval list" where
  "allowedValues schema =
     [Bool True, Bool False, Str ''true'', Str ''false''] @
     (if allowNumeric schema \<noteq> Some False
      then [Num (Fin 0), Num (Fin 1), Str ''0'', Str ''1''] else [])"

definition TypeChecker_boolean ::
  "schema \<Rightarrow> jsval \<Rightarrow> SchemaError list \<Rightarrow> string \<Rightarrow> outcome" where
  "TypeChecker_boolean schema data errors path = do {
     value \<leftarrow> get (sname schema) data;
     if value \<notin> set (allowedValues schema) then
       Some (False, data,
         pushError errors path (sname schema) (stype schema) value ''not boolean'')
     else do {
       data' \<leftarrow> set_property (sname schema)
         (if value = Str ''true'' \<or> value = Str ''1'' then Bool True else value) data;
       Some (True, data', errors)
     }
   }"

text \<open>\<open>symbols.includes(value)\<close> and \<open>symbols.join(', ')\<close>.\<close>

fun array_includes :: "symbols \<Rightarrow> jsval \<Rightarrow> bool" where
  "array_includes (Strings ss) v = (v \<in> set (map Str ss))"
| "array_includes (Numbers ns) v = (v \<in> set (map Num ns))"

fun join :: "string \<Rightarrow> string list \<Rightarrow> string" where
  "join sep [] = []"
| "join sep [x] = x"
| "join sep (x # y # ys) = x @ sep @ join sep (y # ys)"

fun symbol_texts :: "builtins \<Rightarrow> symbols \<Rightarrow> string list" where
  "symbol_texts B (Strings ss) = ss"
| "symbol_texts B (Numbers ns) = map (Number_toString B) ns"

definition TypeChecker_enum ::
  "builtins \<Rightarrow> schema \<Rightarrow> jsval \<Rightarrow> SchemaError list \<Rightarrow> string \<Rightarrow> outcome" where
  "TypeChecker_enum B schema data errors path = do {
     value \<leftarrow> get (sname schema) data;
     if typeof value \<noteq> ''number'' \<and> typeof value \<noteq> ''string'' then
       Some (False, data,
         pushError errors path (sname schema) (stype schema) value ''not number or string'')
     else if \<not> array_includes (symbols schema) value then
       Some (False, data,
         pushError errors path (sname schema) (stype schema) value
           (''invalid symbol, valid symbols : ['' @
              join '', '' (symbol_texts B (symbols schema)) @ '']''))
     else Some (True, data, errors)
   }"

text \<open>
  The value an array or object checker goes on with: the raw value when it already has
  the wanted shape, else the parse of a string that parses, else the raw value.
\<close>

definition parsed_or_raw :: "builtins \<Rightarrow> jsval \<Rightarrow> jsval" where
  "parsed_or_raw B raw =
     (case raw of
        Str s \<Rightarrow> (case JSON_parse B s of Some v \<Rightarrow> v | None \<Rightarrow> raw)
      | _ \<Rightarrow> raw)"

definition elements :: "jsval \<Rightarrow> jsval list" where
  "elements v = (case v of Arr xs \<Rightarrow> xs | _ \<Rightarrow> [])"

text \<open>A measure for the recursion through nested schemas; names do not count.\<close>

fun ssize :: "schema \<Rightarrow> nat" where
  "ssize (ArraySchema n e opt) = Suc (ssize e)"
| "ssize (ObjectSchema n fs opt) = Suc (Suc (sum_list (map ssize fs)))"
| "ssize s = 1"

lemma ssize_set_name [simp]: "ssize (set_name k s) = ssize s"
  by (cases s) simp_all

lemma ssize_pos [simp]: "0 < ssize s"
  by (cases s) simp_all

text \<open>
  \<open>isValid\<close> on one schema, \<open>isValid\<close> on a sequence (\<open>isValid_seq\<close>, the loop with its
  flag \<open>valid\<close>), the dispatch \<open>TypeChecker[schema.type]\<close> with the array and the object
  checker, and the element loop of the array checker (\<open>array_elements\<close>).  The statement
  \<open>valid &&= f()\<close> calls \<open>f\<close> only while \<open>valid\<close> is true.  The element loop runs over
  the indices below the length the array has when the loop starts; an element check never
  changes that length (\<open>array_elements_frame\<close> below).
\<close>

function (sequential)
  isValid :: "builtins \<Rightarrow> schema \<Rightarrow> jsval \<Rightarrow> SchemaError list \<Rightarrow> string \<Rightarrow> outcome"
  and isValid_seq ::
    "builtins \<Rightarrow> bool \<Rightarrow> schema list \<Rightarrow> jsval \<Rightarrow> SchemaError list \<Rightarrow> string \<Rightarrow> outcome"
  and TypeChecker :: "builtins \<Rightarrow> schema \<Rightarrow> jsval \<Rightarrow> SchemaError list \<Rightarrow> string \<Rightarrow> outcome"
  and array_elements ::
    "builtins \<Rightarrow> schema \<Rightarrow> bool \<Rightarrow> nat list \<Rightarrow> jsval \<Rightarrow> SchemaError list \<Rightarrow> string \<Rightarrow> outcome"
where
  "isValid B schema data errors path = do {
     present \<leftarrow> has_property (sname schema) data;
     missing \<leftarrow>
       (if \<not> present then Some True
        else do { v \<leftarrow> get (sname schema) data; Some (v = Null \<or> v = Undefined) });
     if missing then
       (if optional schema = Some True then Some (True, data, errors)
        else do {
          v \<leftarrow> get (sname schema) data;
          Some (False, data, pushError errors path (sname schema) (stype schema) v ''not found'')
        })
     else TypeChecker B schema data errors path
   }"
| "isValid_seq B valid [] data errors path = Some (valid, data, errors)"
| "isValid_seq B valid (entry # rest) data errors path =
     (if valid then do {
        (v, data', errors') \<leftarrow> isValid B entry data errors path;
        isValid_seq B v rest data' errors' path
      }
      else isValid_seq B valid rest data errors path)"
| "TypeChecker B (NumericSchema n t mn mx opt) data errors path =
     NumberTypeChecker B (NumericSchema n t mn mx opt) data errors path"
| "TypeChecker B (StringSchema n l mn mx opt) data errors path =
     TypeChecker_string B (StringSchema n l mn mx opt) data errors path"
| "TypeChecker B (BooleanSchema n a opt) data errors path =
     TypeChecker_boolean (BooleanSchema n a opt) data errors path"
| "TypeChecker B (EnumSchema n syms opt) data errors path =
     TypeChecker_enum B (EnumSchema n syms opt) data errors path"
| "TypeChecker B (ArraySchema n e opt) data errors path = do {
     raw \<leftarrow> get n data;
     let value = (if isArray raw then raw else parsed_or_raw B raw);
     if \<not> isArray value then
       Some (False, data, pushError errors path n ''array'' value ''array expected'')
     else do {
       data1 \<leftarrow> (if isArray raw then Some data else set_property n value data);
       (valid, value', errors') \<leftarrow>
         array_elements B e True [0..<length (elements value)] value errors
           (if path \<noteq> [] then path @ ''.'' @ n @ ''['' else n @ ''['');
       data' \<leftarrow> set_property n value' data1;
       Some (valid, data', errors')
     }
   }"
| "TypeChecker B (ObjectSchema n fs opt) data errors path = do {
     raw \<leftarrow> get n data;
     let value = (if typeof raw = ''object'' then raw else parsed_or_raw B raw);
     if typeof value \<noteq> ''object'' then
       Some (False, data, pushError errors path n ''object'' value ''object expected'')
     else do {
       data1 \<leftarrow> (if typeof raw = ''object'' then Some data else set_property n value data);
       (valid, value', errors') \<leftarrow> isValid_seq B True fs value errors (error_path path n);
       data' \<leftarrow> set_property n value' data1;
       Some (valid, data', errors')
     }
   }"
| "array_elements B e valid [] value errors path = Some (valid, value, errors)"
| "array_elements B e valid (i # is) value errors path =
     (if valid then do {
        (v, value', errors') \<leftarrow> TypeChecker B (set_name (show_nat i) e) value errors path;
        array_elements B e v is value' errors' path
      }
      else array_elements B e valid is value errors path)"
  by pat_completeness auto

termination
  by (relation "measures
        [\<lambda>x. case x of
            Inl (Inl (B, s, r)) \<Rightarrow> 2 * ssize s + 1
          | Inl (Inr (B, valid, ss, r)) \<Rightarrow> 2 * sum_list (map ssize ss) + 2
          | Inr (Inl (B, s, r)) \<Rightarrow> 2 * ssize s
          | Inr (Inr (B, e, r)) \<Rightarrow> 2 * ssize e + 1,
         \<lambda>x. case x of
            Inr (Inr (B, e, valid, is, r)) \<Rightarrow> length is
          | _ \<Rightarrow> 0]")
    auto

declare isValid.simps [simp del]

text \<open>The call the middleware makes: the schema sequence, the merged request data, an
  empty sink and the default path.\<close>

definition validate :: "builtins \<Rightarrow> schema list \<Rightarrow> jsval \<Rightarrow> outcome" where
  "validate B schema reqData = isValid_seq B True schema reqData [] []"

section \<open>An executable instance of the host functions\<close>

text \<open>
  To run the model on examples, \<open>host\<close> implements the host functions on a fragment of
  ECMAScript: ASCII text, numbers that a double holds exactly (integers or short
  decimals, of magnitude \<open>10^-6\<close> at least), and JSON text whose strings use no \<open>\u\<close>
  escape.  The text of a number (\<open>host_toString\<close>) is that of the host for magnitudes
  below \<open>10^21\<close>, where it has no exponent.  Outside the fragment \<open>host\<close> is not the
  host.
\<close>

definition is_space :: "char \<Rightarrow> bool" where
  "is_space c = (of_char c \<in> set [9, 10, 11, 12, 13, 32 :: nat])"

definition is_digit :: "char \<Rightarrow> bool" where
  "is_digit c = (c \<in> set ''0123456789'')"

definition is_hex :: "char \<Rightarrow> bool" where
  "is_hex c = (c \<in> set ''0123456789abcdefABCDEF'')"

definition hex_val :: "char \<Rightarrow> nat" where
  "hex_val c =
     (if is_digit c then of_char c - 48
      else if c \<in> set ''abcdef'' then of_char c - 87
      else of_char c - 55)"

text \<open>A leading sign: whether it is a minus, and the text after it.\<close>

definition signed :: "string \<Rightarrow> bool \<times> string" where
  "signed s =
     (case s of
        [] \<Rightarrow> (False, s)
      | c # cs \<Rightarrow>
          if c = CHR ''-'' then (True, cs) else if c = CHR ''+'' then (False, cs) else (False, s))"

definition str_parseInt :: "string \<Rightarrow> jsnum" where
  "str_parseInt s =
     (let (neg, s2) = signed (dropWhile is_space s);
          hex = (take 2 s2 = ''0x'' \<or> take 2 s2 = ''0X'');
          ds = (if hex then takeWhile is_hex (drop 2 s2) else takeWhile is_digit s2);
          n = (if hex then foldl (\<lambda>a c. 16 * a + hex_val c) 0 ds else read_nat ds)
      in if ds = [] then NaN else Fin ((if neg then - 1 else 1) * of_nat n))"

text \<open>The exponent part of a decimal literal: its value and the text after it.\<close>

definition exponent_part :: "string \<Rightarrow> int \<times> string" where
  "exponent_part s =
     (case s of
        [] \<Rightarrow> (0, s)
      | c # cs \<Rightarrow>
          if c = CHR ''e'' \<or> c = CHR ''E'' then
            (let (neg, r) = signed cs; ds = takeWhile is_digit r
             in if ds = [] then (0, s)
                else ((if neg then - 1 else 1) * int (read_nat ds), drop (length ds) r))
          else (0, s))"

definition scale10 :: "rat \<Rightarrow> int \<Rightarrow> rat" where
  "scale10 q e = (if 0 \<le> e then q * 10 ^ nat e else q / 10 ^ nat (- e))"

text \<open>The digits before and after the point, and the text after them.\<close>

definition mantissa :: "string \<Rightarrow> string \<times> string \<times> string" where
  "mantissa s =
     (let ip = takeWhile is_digit s; r1 = drop (length ip) s
      in case r1 of
           [] \<Rightarrow> (ip, [], r1)
         | c # cs \<Rightarrow>
             if c = CHR ''.'' then
               (let fp = takeWhile is_digit cs in (ip, fp, drop (length fp) cs))
             else (ip, [], r1))"

definition decimal_value :: "string \<Rightarrow> string \<Rightarrow> rat" where
  "decimal_value ip fp = of_nat (read_nat ip) + of_nat (read_nat fp) / 10 ^ length fp"

definition str_parseFloat :: "string \<Rightarrow> jsnum" where
  "str_parseFloat s =
     (let (neg, s2) = signed (dropWhile is_space s) in
      if take 8 s2 = ''Infinity'' then (if neg then NegInf else PosInf)
      else
        (let (ip, fp, r) = mantissa s2; (e, r') = exponent_part r
         in if ip = [] \<and> fp = [] then NaN
            else Fin (scale10 ((if neg then - 1 else 1) * decimal_value ip fp) e)))"

text \<open>
  \<open>parseInt\<close> and \<open>parseFloat\<close> convert their argument to a string first.  For a number
  of magnitude below \<open>10^21\<close> the result is its truncation, respectively the number
  itself.  From \<open>10^21\<close> on the text of a number is its first digit, a point with the
  further digits if there are any, and an exponent (\<open>10^21\<close> prints as \<open>1e+21\<close>):
  \<open>parseInt\<close> reads the first digit alone, \<open>parseFloat\<close> the number.  The string of an
  array starts with the string of its first element (empty for \<open>null\<close> and
  \<open>undefined\<close>), followed by a comma, and the parsers stop at the comma.
\<close>

fun host_parseInt :: "jsval \<Rightarrow> jsnum" where
  "host_parseInt (Str s) = str_parseInt s"
| "host_parseInt (Num (Fin q)) =
     (if q = 0 \<or> (1 / 10 ^ 6 \<le> \<bar>q\<bar> \<and> \<bar>q\<bar> < 10 ^ 21)
      then Fin (of_int (if 0 \<le> q then \<lfloor>q\<rfloor> else \<lceil>q\<rceil>))
      else if 10 ^ 21 \<le> \<bar>q\<bar>
      then Fin ((if q < 0 then - 1 else 1) * of_nat (digit_val (hd (show_nat (nat \<lfloor>\<bar>q\<bar>\<rfloor>)))))
      else NaN)"
| "host_parseInt (Arr (x # xs)) = host_parseInt x"
| "host_parseInt v = NaN"

fun host_parseFloat :: "jsval \<Rightarrow> jsnum" where
  "host_parseFloat (Str s) = str_parseFloat s"
| "host_parseFloat (Num n) = n"
| "host_parseFloat (Arr (x # xs)) = host_parseFloat x"
| "host_parseFloat v = NaN"

text \<open>A number as text.\<close>

fun frac_digits :: "nat \<Rightarrow> rat \<Rightarrow> string" where
  "frac_digits 0 r = []"
| "frac_digits (Suc f) r =
     (if r = 0 then []
      else digit_char (nat \<lfloor>r * 10\<rfloor>) # frac_digits f (r * 10 - of_int \<lfloor>r * 10\<rfloor>))"

definition host_toString :: "jsnum \<Rightarrow> string" where
  "host_toString n =
     (case n of
        NaN \<Rightarrow> ''NaN''
      | PosInf \<Rightarrow> ''Infinity''
      | NegInf \<Rightarrow> ''-Infinity''
      | Fin q \<Rightarrow>
          (let a = \<bar>q\<bar>; ip = \<lfloor>a\<rfloor>; fr = a - of_int ip
           in (if q < 0 then ''-'' else []) @ show_nat (nat ip) @
              (if fr = 0 then [] else ''.'' @ frac_digits 20 fr)))"

text \<open>\<open>JSON.stringify\<close>.\<close>

definition hex_char :: "nat \<Rightarrow> char" where
  "hex_char d = ''0123456789abcdef'' ! d"

definition escape :: "char \<Rightarrow> string" where
  "escape c =
     (if c = CHR 0x22 then [CHR 0x5C, CHR 0x22]
      else if c = CHR 0x5C then [CHR 0x5C, CHR 0x5C]
      else if c = CHR 0x08 then [CHR 0x5C, CHR ''b'']
      else if c = CHR 0x09 then [CHR 0x5C, CHR ''t'']
      else if c = CHR 0x0A then [CHR 0x5C, CHR ''n'']
      else if c = CHR 0x0C then [CHR 0x5C, CHR ''f'']
      else if c = CHR 0x0D then [CHR 0x5C, CHR ''r'']
      else if (of_char c :: nat) < 32 then
        [CHR 0x5C, CHR ''u'', CHR ''0'', CHR ''0'',
         hex_char (of_char c div 16), hex_char (of_char c mod 16)]
      else [c])"

definition quote :: "string \<Rightarrow> string" where
  "quote s = [CHR 0x22] @ concat (map escape s) @ [CHR 0x22]"

fun host_stringify :: "jsval \<Rightarrow> string option" where
  "host_stringify Undefined = None"
| "host_stringify Null = Some ''null''"
| "host_stringify (Bool b) = Some (if b then ''true'' else ''false'')"
| "host_stringify (Num n) = Some (case n of Fin q \<Rightarrow> host_toString n | _ \<Rightarrow> ''null'')"
| "host_stringify (Str s) = Some (quote s)"
| "host_stringify (Arr xs) =
     Some (''['' @
       join '','' (map (\<lambda>x. case host_stringify x of None \<Rightarrow> ''null'' | Some t \<Rightarrow> t) xs) @ '']'')"
| "host_stringify (Obj kvs) =
     Some (''{'' @
       join '',''
         (concat (map (\<lambda>kv. case host_stringify (snd kv) of
                                None \<Rightarrow> []
                              | Some t \<Rightarrow> [quote (fst kv) @ '':'' @ t]) kvs)) @ ''}'')"

text \<open>
  \<open>JSON.parse\<close>: a recursive descent over the text.  The recursion is bounded by a
  count that the length of the text always covers.
\<close>

definition is_ws :: "char \<Rightarrow> bool" where
  "is_ws c = (of_char c \<in> set [9, 10, 13, 32 :: nat])"

definition unescape :: "char \<Rightarrow> char option" where
  "unescape c =
     (if c = CHR 0x22 \<or> c = CHR 0x5C \<or> c = CHR ''/'' then Some c
      else if c = CHR ''b'' then Some (CHR 0x08)
      else if c = CHR ''t'' then Some (CHR 0x09)
      else if c = CHR ''n'' then Some (CHR 0x0A)
      else if c = CHR ''f'' then Some (CHR 0x0C)
      else if c = CHR ''r'' then Some (CHR 0x0D)
      else None)"

text \<open>The text of a string literal after its opening quote.\<close>

fun json_string :: "string \<Rightarrow> (string \<times> string) option" where
  "json_string [] = None"
| "json_string [c] = (if c = CHR 0x22 then Some ([], []) else None)"
| "json_string (c # d # cs) =
     (if c = CHR 0x22 then Some ([], d # cs)
      else if c = CHR 0x5C then
        (case unescape d of
           None \<Rightarrow> None
         | Some u \<Rightarrow> map_option (\<lambda>(t, r). (u # t, r)) (json_string cs))
      else if (of_char c :: nat) < 32 then None
      else map_option (\<lambda>(t, r). (c # t, r)) (json_string (d # cs)))"

definition json_number :: "string \<Rightarrow> (jsval \<times> string) option" where
  "json_number s =
     (let neg = (take 1 s = ''-'');
          s1 = (if neg then drop 1 s else s);
          ds = takeWhile is_digit s1;
          ip = (if take 1 ds = ''0'' then ''0'' else ds);
          r1 = drop (length ip) s1;
          dot = (take 1 r1 = ''.'');
          fp = (if dot then takeWhile is_digit (drop 1 r1) else []);
          r2 = (if dot then drop (Suc (length fp)) r1 else r1);
          ex = (take 1 r2 = ''e'' \<or> take 1 r2 = ''E'');
          (eneg, r3) = signed (drop 1 r2);
          ed = takeWhile is_digit r3;
          e = (if ex then (if eneg then - 1 else 1) * int (read_nat ed) else 0);
          r4 = (if ex then drop (length ed) r3 else r2)
      in if ip = [] \<or> (dot \<and> fp = []) \<or> (ex \<and> ed = []) then None
         else Some (Num (Fin (scale10 ((if neg then - 1 else 1) * decimal_value ip fp) e)), r4))"

fun json_value :: "nat \<Rightarrow> string \<Rightarrow> (jsval \<times> string) option"
  and json_elements :: "nat \<Rightarrow> string \<Rightarrow> (jsval list \<times> string) option"
  and json_members :: "nat \<Rightarrow> string \<Rightarrow> ((string \<times> jsval) list \<times> string) option"
where
  "json_value 0 s = None"
| "json_value (Suc f) s =
     (case dropWhile is_ws s of
        [] \<Rightarrow> None
      | c # cs \<Rightarrow>
          if c = CHR ''['' then
            (if take 1 (dropWhile is_ws cs) = '']''
             then Some (Arr [], drop 1 (dropWhile is_ws cs))
             else map_option (\<lambda>(vs, r). (Arr vs, r)) (json_elements f cs))
          else if c = CHR ''{'' then
            (if take 1 (dropWhile is_ws cs) = ''}''
             then Some (Obj [], drop 1 (dropWhile is_ws cs))
             else map_option
                    (\<lambda>(kvs, r). (Obj (foldl (\<lambda>al kv. AList.update (fst kv) (snd kv) al) [] kvs), r))
                    (json_members f cs))
          else if c = CHR 0x22 then map_option (\<lambda>(t, r). (Str t, r)) (json_string cs)
          else if take 4 (c # cs) = ''null'' then Some (Null, drop 3 cs)
          else if take 4 (c # cs) = ''true'' then Some (Bool True, drop 3 cs)
          else if take 5 (c # cs) = ''false'' then Some (Bool False, drop 4 cs)
          else json_number (c # cs))"
| "json_elements 0 s = None"
| "json_elements (Suc f) s =
     (case json_value f s of
        None \<Rightarrow> None
      | Some (v, r) \<Rightarrow>
          (case dropWhile is_ws r of
             [] \<Rightarrow> None
           | c # cs \<Rightarrow>
               if c = CHR '','' then map_option (\<lambda>(vs, r'). (v # vs, r')) (json_elements f cs)
               else if c = CHR '']'' then Some ([v], cs)
               else None))"
| "json_members 0 s = None"
| "json_members (Suc f) s =
     (case dropWhile is_ws s of
        [] \<Rightarrow> None
      | q # ks \<Rightarrow>
          if q \<noteq> CHR 0x22 then None
          else
            (case json_string ks of
               None \<Rightarrow> None
             | Some (k, r) \<Rightarrow>
                 (case dropWhile is_ws r of
                    [] \<Rightarrow> None
                  | c # cs \<Rightarrow>
                      if c \<noteq> CHR '':'' then None
                      else
                        (case json_value f cs of
                           None \<Rightarrow> None
                         | Some (v, r1) \<Rightarrow>
                             (case dropWhile is_ws r1 of
                                [] \<Rightarrow> None
                              | c1 # cs1 \<Rightarrow>
                                  if c1 = CHR '','' then
                                    map_option (\<lambda>(kvs, r'). ((k, v) # kvs, r'))
                                      (json_members f cs1)
                                  else if c1 = CHR ''}'' then Some ([(k, v)], cs1)
                                  else None)))))"

definition host_JSON_parse :: "string \<Rightarrow> jsval option" where
  "host_JSON_parse s =
     (case json_value (Suc (length s)) s of
        None \<Rightarrow> None
      | Some (v, r) \<Rightarrow> if dropWhile is_ws r = [] then Some v else None)"

definition host :: builtins where
  "host = \<lparr>parseInt = host_parseInt, parseFloat = host_parseFloat,
           JSON_parse = host_JSON_parse, JSON_stringify = host_stringify,
           Number_toString = host_toString\<rparr>"

section \<open>Schema objects in a store\<close>

text \<open>
  In the source a schema is an object that the caller owns, and its sub-schemas are
  references to further objects.  To speak about who mutates which object, this second
  model keeps the schema objects in a store: a list of objects, whose positions are the
  addresses.  An object holds its own properties; \<open>elementType\<close> and the entries of
  \<open>fields\<close> are addresses.  The data bag and the error sink are handled as before.
\<close>

type_synonym addr = nat

datatype sobj =
    ONumeric string numeric_type "jsnum option" "jsnum option" "bool option"
  | OString string "jsnum option" "jsnum option" "jsnum option" "bool option"
  | OBoolean string "bool option" "bool option"
  | OEnum string symbols "bool option"
  | OArray string addr "bool option"
  | OObject string "addr list" "bool option"

type_synonym store = "sobj list"

fun oname :: "sobj \<Rightarrow> string" where
  "oname (ONumeric n t mn mx opt) = n"
| "oname (OString n l mn mx opt) = n"
| "oname (OBoolean n a opt) = n"
| "oname (OEnum n syms opt) = n"
| "oname (OArray n e opt) = n"
| "oname (OObject n fs opt) = n"

fun ooptional :: "sobj \<Rightarrow> bool option" where
  "ooptional (ONumeric n t mn mx opt) = opt"
| "ooptional (OString n l mn mx opt) = opt"
| "ooptional (OBoolean n a opt) = opt"
| "ooptional (OEnum n syms opt) = opt"
| "ooptional (OArray n e opt) = opt"
| "ooptional (OObject n fs opt) = opt"

fun otype :: "sobj \<Rightarrow> string" where
  "otype (ONumeric n t mn mx opt) = (case t of TInt \<Rightarrow> ''int'' | TFloat \<Rightarrow> ''float'')"
| "otype (OString n l mn mx opt) = ''string''"
| "otype (OBoolean n a opt) = ''boolean''"
| "otype (OEnum n syms opt) = ''enum''"
| "otype (OArray n e opt) = ''array''"
| "otype (OObject n fs opt) = ''object''"

text \<open>The assignment \<open>o.name = k\<close> to an object.\<close>

fun oset_name :: "string \<Rightarrow> sobj \<Rightarrow> sobj" where
  "oset_name k (ONumeric n t mn mx opt) = ONumeric k t mn mx opt"
| "oset_name k (OString n l mn mx opt) = OString k l mn mx opt"
| "oset_name k (OBoolean n a opt) = OBoolean k a opt"
| "oset_name k (OEnum n syms opt) = OEnum k syms opt"
| "oset_name k (OArray n e opt) = OArray k e opt"
| "oset_name k (OObject n fs opt) = OObject k fs opt"

text \<open>
  Reading the object at an address.  A reference of the source always leads to an
  object; an address outside the store stands for a missing sub-schema, whose properties
  cannot be read.
\<close>

definition lookup :: "store \<Rightarrow> addr \<Rightarrow> sobj option" where
  "lookup st a = (if a < length st then Some (st ! a) else None)"

text \<open>
  \<open>const elementSchema = {}; _.assign(elementSchema, schema.elementType)\<close>: a new object
  at the next free address, with the own properties of the element schema.
\<close>

definition clone :: "sobj \<Rightarrow> store \<Rightarrow> addr \<times> store" where
  "clone obj st = (length st, st @ [obj])"

text \<open>
  A run of the store model gives the outcome of the value model (\<open>None\<close> for a thrown
  \<open>TypeError\<close>) together with the store it leaves, or gives nothing when the recursion
  count \<open>f\<close> is used up before the run ends.
\<close>

type_synonym srun = "(outcome \<times> store) option"

text \<open>
  The first half of the array checker and of the object checker, up to the loop: the
  outcome, when the value has not the wanted shape or an access throws, or else the value
  to loop over and the bag that holds it.
\<close>

definition array_value ::
  "builtins \<Rightarrow> string \<Rightarrow> jsval \<Rightarrow> SchemaError list \<Rightarrow> string \<Rightarrow> outcome + jsval \<times> jsval" where
  "array_value B n data errors path =
     (case get n data of
        None \<Rightarrow> Inl None
      | Some raw \<Rightarrow>
          (let value = (if isArray raw then raw else parsed_or_raw B raw) in
           if \<not> isArray value then
             Inl (Some (False, data, pushError errors path n ''array'' value ''array expected''))
           else
             (case (if isArray raw then Some data else set_property n value data) of
                None \<Rightarrow> Inl None
              | Some data1 \<Rightarrow> Inr (value, data1))))"

definition object_value ::
  "builtins \<Rightarrow> string \<Rightarrow> jsval \<Rightarrow> SchemaError list \<Rightarrow> string \<Rightarrow> outcome + jsval \<times> jsval" where
  "object_value B n data errors path =
     (case get n data of
        None \<Rightarrow> Inl None
      | Some raw \<Rightarrow>
          (let value = (if typeof raw = ''object'' then raw else parsed_or_raw B raw) in
           if typeof value \<noteq> ''object'' then
             Inl (Some (False, data, pushError errors path n ''object'' value ''object expected''))
           else
             (case (if typeof raw = ''object'' then Some data else set_property n value data) of
                None \<Rightarrow> Inl None
              | Some data1 \<Rightarrow> Inr (value, data1))))"

text \<open>The second half: the bag holds the value as the loop left it.\<close>

definition write_back :: "string \<Rightarrow> jsval \<Rightarrow> srun \<Rightarrow> srun" where
  "write_back n data1 r =
     (case r of
        None \<Rightarrow> None
      | Some (None, st') \<Rightarrow> Some (None, st')
      | Some (Some (valid, value', errors'), st') \<Rightarrow>
          (case set_property n value' data1 of
             None \<Rightarrow> Some (None, st')
           | Some data' \<Rightarrow> Some (Some (valid, data', errors'), st')))"

text \<open>The presence test of \<open>isValid\<close>: the outcome for a missing field.\<close>

definition missing_outcome ::
  "sobj \<Rightarrow> jsval \<Rightarrow> SchemaError list \<Rightarrow> string \<Rightarrow> outcome option" where
  "missing_outcome schema data errors path =
     (case has_property (oname schema) data of
        None \<Rightarrow> Some None
      | Some present \<Rightarrow>
          (case get (oname schema) data of
             None \<Rightarrow> Some None
           | Some v \<Rightarrow>
               if \<not> present \<or> v = Null \<or> v = Undefined then
                 (if ooptional schema = Some True then Some (Some (True, data, errors))
                  else Some (Some (False, data,
                         pushError errors path (oname schema) (otype schema) v ''not found'')))
               else None))"

function (sequential)
  isValid_s ::
    "nat \<Rightarrow> builtins \<Rightarrow> addr \<Rightarrow> jsval \<Rightarrow> SchemaError list \<Rightarrow> string \<Rightarrow> store \<Rightarrow> srun"
  and isValid_seq_s ::
    "nat \<Rightarrow> builtins \<Rightarrow> bool \<Rightarrow> addr list \<Rightarrow> jsval \<Rightarrow> SchemaError list \<Rightarrow> string \<Rightarrow> store \<Rightarrow> srun"
  and TypeChecker_s ::
    "nat \<Rightarrow> builtins \<Rightarrow> addr \<Rightarrow> jsval \<Rightarrow> SchemaError list \<Rightarrow> string \<Rightarrow> store \<Rightarrow> srun"
  and array_elements_s ::
    "nat \<Rightarrow> builtins \<Rightarrow> addr \<Rightarrow> bool \<Rightarrow> nat list \<Rightarrow> jsval \<Rightarrow> SchemaError list \<Rightarrow> string \<Rightarrow>
       store \<Rightarrow> srun"
where
  "isValid_s f B a data errors path st =
     (case lookup st a of
        None \<Rightarrow> Some (None, st)
      | Some schema \<Rightarrow>
          (case missing_outcome schema data errors path of
             Some r \<Rightarrow> Some (r, st)
           | None \<Rightarrow> TypeChecker_s f B a data errors path st))"
| "isValid_seq_s f B valid [] data errors path st = Some (Some (valid, data, errors), st)"
| "isValid_seq_s f B valid (entry # rest) data errors path st =
     (if valid then
        (case isValid_s f B entry data errors path st of
           None \<Rightarrow> None
         | Some (None, st') \<Rightarrow> Some (None, st')
         | Some (Some (v, data', errors'), st') \<Rightarrow> isValid_seq_s f B v rest data' errors' path st')
      else isValid_seq_s f B valid rest data errors path st)"
| "TypeChecker_s 0 B a data errors path st = None"
| "TypeChecker_s (Suc f) B a data errors path st =
     (case lookup st a of
        None \<Rightarrow> Some (None, st)
      | Some (ONumeric n t mn mx opt) \<Rightarrow>
          Some (NumberTypeChecker B (NumericSchema n t mn mx opt) data errors path, st)
      | Some (OString n l mn mx opt) \<Rightarrow>
          Some (TypeChecker_string B (StringSchema n l mn mx opt) data errors path, st)
      | Some (OBoolean n al opt) \<Rightarrow>
          Some (TypeChecker_boolean (BooleanSchema n al opt) data errors path, st)
      | Some (OEnum n syms opt) \<Rightarrow>
          Some (TypeChecker_enum B (EnumSchema n syms opt) data errors path, st)
      | Some (OArray n ea opt) \<Rightarrow>
          (case array_value B n data errors path of
             Inl r \<Rightarrow> Some (r, st)
           | Inr (value, data1) \<Rightarrow>
               (case lookup st ea of
                  None \<Rightarrow> Some (None, st)
                | Some element \<Rightarrow>
                    write_back n data1
                      (array_elements_s f B (fst (clone element st)) True
                         [0..<length (elements value)] value errors
                         (if path \<noteq> [] then path @ ''.'' @ n @ ''['' else n @ ''['')
                         (snd (clone element st)))))
      | Some (OObject n fas opt) \<Rightarrow>
          (case object_value B n data errors path of
             Inl r \<Rightarrow> Some (r, st)
           | Inr (value, data1) \<Rightarrow>
               write_back n data1
                 (isValid_seq_s f B True fas value errors (error_path path n) st)))"
| "array_elements_s f B c valid [] value errors path st = Some (Some (valid, value, errors), st)"
| "array_elements_s f B c valid (i # is) value errors path st =
     (if valid then
        (case TypeChecker_s f B c value errors path (st[c := oset_name (show_nat i) (st ! c)]) of
           None \<Rightarrow> None
         | Some (None, st') \<Rightarrow> Some (None, st')
         | Some (Some (v, value', errors'), st') \<Rightarrow>
             array_elements_s f B c v is value' errors' path st')
      else array_elements_s f B c valid is value errors path
             (st[c := oset_name (show_nat i) (st ! c)]))"
  by pat_completeness auto

termination
  by (relation "measures
        [\<lambda>x. case x of
            Inl (Inl (f, r)) \<Rightarrow> f
          | Inl (Inr (f, r)) \<Rightarrow> f
          | Inr (Inl (f, r)) \<Rightarrow> f
          | Inr (Inr (f, r)) \<Rightarrow> f,
         \<lambda>x. case x of
            Inl (Inl (f, r)) \<Rightarrow> 1
          | Inl (Inr (f, r)) \<Rightarrow> 2
          | Inr (Inl (f, r)) \<Rightarrow> 0
          | Inr (Inr (f, r)) \<Rightarrow> 2,
         \<lambda>x. case x of
            Inl (Inr (f, B, valid, as, r)) \<Rightarrow> length as
          | Inr (Inr (f, B, c, valid, is, r)) \<Rightarrow> length is
          | _ \<Rightarrow> 0]")
    auto

declare isValid_s.simps [simp del]

text \<open>The call of the middleware, on the addresses of the schema sequence.\<close>

definition validate_s :: "nat \<Rightarrow> builtins \<Rightarrow> addr list \<Rightarrow> jsval \<Rightarrow> store \<Rightarrow> srun" where
  "validate_s f B schema reqData st = isValid_seq_s f B True schema reqData [] [] st"

text \<open>
  The schema that the objects reachable from an address spell out, when the recursion
  count covers its depth.
\<close>

fun schema_at :: "nat \<Rightarrow> store \<Rightarrow> addr \<Rightarrow> schema option"
  and schemas_at :: "nat \<Rightarrow> store \<Rightarrow> addr list \<Rightarrow> schema list option"
where
  "schema_at 0 st a = None"
| "schema_at (Suc f) st a =
     (case lookup st a of
        None \<Rightarrow> None
      | Some (ONumeric n t mn mx opt) \<Rightarrow> Some (NumericSchema n t mn mx opt)
      | Some (OString n l mn mx opt) \<Rightarrow> Some (StringSchema n l mn mx opt)
      | Some (OBoolean n al opt) \<Rightarrow> Some (BooleanSchema n al opt)
      | Some (OEnum n syms opt) \<Rightarrow> Some (EnumSchema n syms opt)
      | Some (OArray n ea opt) \<Rightarrow> map_option (\<lambda>e. ArraySchema n e opt) (schema_at f st ea)
      | Some (OObject n fas opt) \<Rightarrow> map_option (\<lambda>fs. ObjectSchema n fs opt) (schemas_at f st fas))"
| "schemas_at f st [] = Some []"
| "schemas_at f st (a # as) =
     (case schema_at f st a of
        None \<Rightarrow> None
      | Some s \<Rightarrow> map_option (\<lambda>ss. s # ss) (schemas_at f st as))"

section \<open>Outcomes of the checkers\<close>

text \<open>The schemas without sub-schemas: numbers, strings, booleans and enums.\<close>

fun is_leaf :: "schema \<Rightarrow> bool" where
  "is_leaf (ArraySchema n e opt) = False"
| "is_leaf (ObjectSchema n fs opt) = False"
| "is_leaf s = True"

text \<open>
  What a checker of such a schema can do: pass without touching the sink, or fail with
  the bag untouched and one error pushed for its field.
\<close>

definition leaf_outcome ::
  "schema \<Rightarrow> jsval \<Rightarrow> SchemaError list \<Rightarrow> string \<Rightarrow> bool \<times> jsval \<times> SchemaError list \<Rightarrow> bool" where
  "leaf_outcome s d es p r =
     (case r of (v, d', es') \<Rightarrow>
        if v then es' = es
        else d' = d \<and> (\<exists>x desc. es' = pushError es p (sname s) (stype s) x desc))"

text \<open>
  What one check can do to the sink (\<open>single_outcome\<close>): nothing when it passes, one
  error more when it fails.  What a loop over entries or elements can do
  (\<open>loop_outcome\<close>): the same while its flag is true, and nothing at all once the flag is
  false.
\<close>

definition single_outcome ::
  "SchemaError list \<Rightarrow> bool \<times> jsval \<times> SchemaError list \<Rightarrow> bool" where
  "single_outcome es r =
     (case r of (v, d', es') \<Rightarrow> if v then es' = es else (\<exists>e. es' = es @ [e]))"

definition loop_outcome ::
  "bool \<Rightarrow> jsval \<Rightarrow> SchemaError list \<Rightarrow> bool \<times> jsval \<times> SchemaError list \<Rightarrow> bool" where
  "loop_outcome valid d es r =
     (case r of (v, d', es') \<Rightarrow>
        if valid then (if v then es' = es else (\<exists>e. es' = es @ [e]))
        else \<not> v \<and> d' = d \<and> es' = es)"

section \<open>Settled bags\<close>

text \<open>
  Sibling fields have distinct names, at every level of a schema.
\<close>

fun distinct_names :: "schema \<Rightarrow> bool" where
  "distinct_names (ArraySchema n e opt) = distinct_names e"
| "distinct_names (ObjectSchema n fs opt) = (distinct (map sname fs) \<and> list_all distinct_names fs)"
| "distinct_names s = True"

text \<open>The value of a field of a bag, and the test \<open>isValid\<close> makes for a missing one.\<close>

definition field :: "string \<Rightarrow> jsval \<Rightarrow> jsval" where
  "field k d = (case get k d of None \<Rightarrow> Undefined | Some v \<Rightarrow> v)"

definition missing :: "jsval \<Rightarrow> bool" where
  "missing v = (v = Null \<or> v = Undefined)"

text \<open>
  From \<open>10^21\<close> on the text of a number has an exponent, and \<open>parseInt\<close> does not read
  back the number it is given.
\<close>

definition below_e21 :: "jsnum \<Rightarrow> bool" where
  "below_e21 x = (case x of Fin q \<Rightarrow> \<bar>q\<bar> < 10 ^ 21 | _ \<Rightarrow> True)"

text \<open>
  A value is settled for a schema when every number it holds where the schema wants an
  \<open>int\<close> is below \<open>10^21\<close> in magnitude, and no required field of an object in it that
  the schema wants to be an object is \<open>null\<close>.
\<close>

fun settled :: "schema \<Rightarrow> jsval \<Rightarrow> bool"
  and settled_fields :: "schema list \<Rightarrow> jsval \<Rightarrow> bool"
where
  "settled (NumericSchema n t mn mx opt) w =
     (case w of Num x \<Rightarrow> t = TInt \<longrightarrow> below_e21 x | _ \<Rightarrow> True)"
| "settled (ArraySchema n e opt) w = list_all (settled e) (elements w)"
| "settled (ObjectSchema n fs opt) w = settled_fields fs w"
| "settled s w = True"
| "settled_fields [] d = True"
| "settled_fields (f # fs) d =
     ((stype f = ''object'' \<and> field (sname f) d = Null \<longrightarrow> optional f = Some True) \<and>
      settled f (field (sname f) d) \<and> settled_fields fs d)"

text \<open>
  What the proofs use of the host: \<open>parseFloat\<close> reads back a number it has returned,
  \<open>parseInt\<close> does so below \<open>10^21\<close>, and \<open>JSON.stringify\<close> returns \<open>undefined\<close>
  for \<open>undefined\<close> alone.
\<close>

definition reads_back :: "builtins \<Rightarrow> bool" where
  "reads_back B =
     ((\<forall>x. parseFloat B (Num (parseFloat B x)) = parseFloat B x) \<and>
      (\<forall>x. below_e21 (parseInt B x) \<longrightarrow> parseInt B (Num (parseInt B x)) = parseInt B x) \<and>
      (\<forall>v. JSON_stringify B v = None \<longleftrightarrow> v = Undefined))"

text \<open>What a check of the field \<open>k\<close> can do to the bag: nothing, or write that field.\<close>

definition written :: "string \<Rightarrow> jsval \<Rightarrow> jsval \<Rightarrow> bool" where
  "written k d d1 = (d1 = d \<or> (has_property k d = Some True \<and> (\<exists>y. set_property k y d = Some d1)))"

section \<open>Stores that grow\<close>

text \<open>
  \<open>extends st st'\<close>: the store \<open>st'\<close> holds every object of \<open>st\<close> unchanged at its address,
  and possibly new objects behind them.  \<open>same_but c st st'\<close>: the same, except for the
  object at the address \<open>c\<close>.
\<close>

definition extends :: "store \<Rightarrow> store \<Rightarrow> bool" where
  "extends st st' = (length st \<le> length st' \<and> take (length st) st' = st)"

definition same_but :: "addr \<Rightarrow> store \<Rightarrow> store \<Rightarrow> bool" where
  "same_but c st st' = (length st \<le> length st' \<and> (take (length st) st')[c := st ! c] = st)"

text \<open>The objects without references to other objects.\<close>

fun is_oleaf :: "sobj \<Rightarrow> bool" where
  "is_oleaf (OArray n e opt) = False"
| "is_oleaf (OObject n fs opt) = False"
| "is_oleaf obj = True"

section \<open>Lemmas about the checkers\<close>

lemma NumberTypeChecker_outcome:
  "NumberTypeChecker B s d es p = Some r \<Longrightarrow> leaf_outcome s d es p r"
  unfolding NumberTypeChecker_def leaf_outcome_def
  by (auto simp: Let_def split: Option.bind_splits if_splits)

lemma TypeChecker_string_outcome:
  "TypeChecker_string B s d es p = Some r \<Longrightarrow> leaf_outcome s d es p r"
  unfolding TypeChecker_string_def leaf_outcome_def
  by (auto simp: Let_def split: Option.bind_splits if_splits)

lemma TypeChecker_boolean_outcome:
  "TypeChecker_boolean s d es p = Some r \<Longrightarrow> leaf_outcome s d es p r"
  unfolding TypeChecker_boolean_def leaf_outcome_def
  by (auto simp: Let_def split: Option.bind_splits if_splits)

lemma TypeChecker_enum_outcome:
  "TypeChecker_enum B s d es p = Some r \<Longrightarrow> leaf_outcome s d es p r"
  unfolding TypeChecker_enum_def leaf_outcome_def
  by (auto simp: Let_def split: Option.bind_splits if_splits)

lemma TypeChecker_leaf_outcome:
  "TypeChecker B s d es p = Some r \<Longrightarrow> is_leaf s \<Longrightarrow> leaf_outcome s d es p r"
  by (cases s)
    (simp_all add: NumberTypeChecker_outcome TypeChecker_string_outcome
      TypeChecker_boolean_outcome TypeChecker_enum_outcome)

lemma isValid_leaf_outcome:
  assumes "isValid B s d es p = Some r" and "is_leaf s"
  shows "leaf_outcome s d es p r"
proof (cases "TypeChecker B s d es p = Some r")
  case True
  then show ?thesis using assms(2) by (rule TypeChecker_leaf_outcome)
next
  case False
  with assms(1) show ?thesis
    by (auto simp: isValid.simps leaf_outcome_def split: Option.bind_splits if_splits)
qed


lemma sname_set_name [simp]: "sname (set_name k s) = k"
  by (cases s) simp_all

lemma stype_set_name [simp]: "stype (set_name k s) = stype s"
  by (cases s) simp_all

lemma is_leaf_set_name [simp]: "is_leaf (set_name k s) = is_leaf s"
  by (cases s) simp_all

lemma array_elements_leaf:
  assumes "array_elements B e valid ixs a es p = Some (v, a', es')" and "is_leaf e"
  shows "(v \<longrightarrow> valid \<and> es' = es) \<and>
         (\<not> valid \<longrightarrow> es' = es) \<and>
         (valid \<and> \<not> v \<longrightarrow>
            (\<exists>i\<in>set ixs. \<exists>x desc. es' = pushError es p (show_nat i) (stype e) x desc))"
  using assms
proof (induction ixs arbitrary: valid a es)
  case Nil
  then show ?case by simp
next
  case (Cons i ixs)
  show ?case
  proof (cases valid)
    case False
    with Cons.prems(1) have "array_elements B e False ixs a es p = Some (v, a', es')" by simp
    from Cons.IH [OF this Cons.prems(2)] False show ?thesis by simp
  next
    case True
    with Cons.prems(1) obtain v1 a1 es1 where
      step: "TypeChecker B (set_name (show_nat i) e) a es p = Some (v1, a1, es1)" and
      rest: "array_elements B e v1 ixs a1 es1 p = Some (v, a', es')"
      by (auto split: Option.bind_splits)
    from step Cons.prems(2) have lo: "leaf_outcome (set_name (show_nat i) e) a es p (v1, a1, es1)"
      by (simp add: TypeChecker_leaf_outcome)
    from Cons.IH [OF rest Cons.prems(2)] lo True show ?thesis
      by (cases v1) (auto simp: leaf_outcome_def)
  qed
qed

lemma num_lt_length_zero [simp]: "\<not> num_lt (Fin (of_nat k)) (Fin 0)"
  by simp

lemma num_lt_zero_length [simp]: "num_lt (Fin 0) (Fin (of_nat k)) = (0 < k)"
  by simp

lemma set_property_present:
  "has_property k d = Some b \<Longrightarrow> \<exists>d'. set_property k v d = Some d'"
  by (cases d) (simp_all add: Let_def)

lemma leaf_outcome_single: "leaf_outcome s d es p r \<Longrightarrow> single_outcome es r"
  by (auto simp: leaf_outcome_def single_outcome_def pushError_def)

lemma loop_outcome_step:
  assumes "single_outcome es (v1, d1, es1)" and "loop_outcome v1 d1 es1 r"
  shows "loop_outcome True d es r"
  using assms by (cases v1) (auto simp: single_outcome_def loop_outcome_def)

lemma outcomes:
  "isValid B s d es p = Some r \<Longrightarrow> single_outcome es r"
  "isValid_seq B valid ss d es p = Some r1 \<Longrightarrow> loop_outcome valid d es r1"
  "TypeChecker B s d es p = Some r2 \<Longrightarrow> single_outcome es r2"
  "array_elements B e valid ixs a es p = Some r3 \<Longrightarrow> loop_outcome valid a es r3"
proof (induction B s d es p and B valid ss d es p and B s d es p and B e valid ixs a es p
    arbitrary: r and r1 and r2 and r3
    rule: isValid_isValid_seq_TypeChecker_array_elements.induct)
  case (1 B schema data errors path)
  show ?case
  proof (cases "TypeChecker B schema data errors path = Some r")
    case True
    from "1.prems" obtain a aa where
      "has_property (sname schema) data = Some a"
      "(if \<not> a then Some True
         else get (sname schema) data \<bind> (\<lambda>v. Some (v = Null \<or> v = Undefined))) = Some aa"
      by (auto simp: isValid.simps split: Option.bind_splits)
    show ?thesis
    proof (cases aa)
      case True
      with "1.prems" \<open>has_property (sname schema) data = Some a\<close>
        \<open>(if \<not> a then Some True
         else get (sname schema) data \<bind> (\<lambda>v. Some (v = Null \<or> v = Undefined))) = Some aa\<close>
      show ?thesis
        by (auto simp: isValid.simps single_outcome_def pushError_def
            split: Option.bind_splits if_splits)
    next
      case False
      from "1.IH" [OF \<open>has_property (sname schema) data = Some a\<close>
        \<open>(if \<not> a then Some True
         else get (sname schema) data \<bind> (\<lambda>v. Some (v = Null \<or> v = Undefined))) = Some aa\<close>
        False \<open>TypeChecker B schema data errors path = Some r\<close>]
      show ?thesis .
    qed
  next
    case False
    with "1.prems" show ?thesis
      by (auto simp: isValid.simps single_outcome_def pushError_def
          split: Option.bind_splits if_splits)
  qed
next
  case (2 B valid data errors path)
  then show ?case by (auto simp: loop_outcome_def)
next
  case (3 B valid entry rest data errors path)
  show ?case
  proof (cases valid)
    case True
    with "3.prems" obtain v1 d1 es1 where
      step: "isValid B entry data errors path = Some (v1, d1, es1)" and
      rest: "isValid_seq B v1 rest d1 es1 path = Some r1"
      by (auto split: Option.bind_splits)
    from "3.IH"(1) [OF True step] have "single_outcome errors (v1, d1, es1)" .
    moreover from "3.IH"(2) [OF True step refl refl rest] have "loop_outcome v1 d1 es1 r1" .
    ultimately show ?thesis using True by (simp add: loop_outcome_step)
  next
    case False
    with "3.prems" "3.IH"(3) show ?thesis by simp
  qed
next
  case (4 B n t mn mx opt data errors path)
  then show ?case by (auto dest!: NumberTypeChecker_outcome intro: leaf_outcome_single)
next
  case (5 B n l mn mx opt data errors path)
  then show ?case by (auto dest!: TypeChecker_string_outcome intro: leaf_outcome_single)
next
  case (6 B n a opt data errors path)
  then show ?case by (auto dest!: TypeChecker_boolean_outcome intro: leaf_outcome_single)
next
  case (7 B n syms opt data errors path)
  then show ?case by (auto dest!: TypeChecker_enum_outcome intro: leaf_outcome_single)
next
  case (8 B n e opt data errors path)
  from "8.prems" obtain raw where raw: "get n data = Some raw"
    by (auto split: Option.bind_splits)
  define x where "x = (if isArray raw then raw else parsed_or_raw B raw)"
  show ?case
  proof (cases "isArray x")
    case False
    with "8.prems" raw x_def show ?thesis
      by (auto simp: single_outcome_def pushError_def)
  next
    case True
    with "8.prems" raw x_def obtain data1 valid value' errors' data' where
      d1: "(if isArray raw then Some data else set_property n x data) = Some data1" and
      loop: "array_elements B e True [0..<length (elements x)] x errors
           (if path \<noteq> [] then path @ ''.'' @ n @ ''['' else n @ ''['') =
         Some (valid, value', errors')" and
      r2: "r2 = (valid, data', errors')"
      by (auto simp: Let_def split: Option.bind_splits if_splits)
    from "8.IH" [OF raw x_def _ d1 loop] True
    have "loop_outcome True x errors (valid, value', errors')" by simp
    with r2 show ?thesis by (simp add: loop_outcome_def single_outcome_def)
  qed
next
  case (9 B n fs opt data errors path)
  from "9.prems" obtain raw where raw: "get n data = Some raw"
    by (auto split: Option.bind_splits)
  define x where "x = (if typeof raw = ''object'' then raw else parsed_or_raw B raw)"
  show ?case
  proof (cases "typeof x = ''object''")
    case False
    with "9.prems" raw x_def show ?thesis
      by (auto simp: single_outcome_def pushError_def)
  next
    case True
    with "9.prems" raw x_def obtain data1 valid value' errors' data' where
      d1: "(if typeof raw = ''object'' then Some data else set_property n x data) = Some data1" and
      loop: "isValid_seq B True fs x errors (error_path path n) = Some (valid, value', errors')" and
      r2: "r2 = (valid, data', errors')"
      by (auto simp: Let_def split: Option.bind_splits if_splits)
    from "9.IH" [OF raw x_def _ d1 loop] True
    have "loop_outcome True x errors (valid, value', errors')" by simp
    with r2 show ?thesis by (simp add: loop_outcome_def single_outcome_def)
  qed
next
  case (10 B e valid "value" errors path)
  then show ?case by (auto simp: loop_outcome_def)
next
  case (11 B e valid i "is" "value" errors path)
  show ?case
  proof (cases valid)
    case True
    with "11.prems" obtain v1 d1 es1 where
      step: "TypeChecker B (set_name (show_nat i) e) value errors path = Some (v1, d1, es1)" and
      rest: "array_elements B e v1 is d1 es1 path = Some r3"
      by (auto split: Option.bind_splits)
    from "11.IH"(1) [OF True step] have "single_outcome errors (v1, d1, es1)" .
    moreover from "11.IH"(2) [OF True step refl refl rest] have "loop_outcome v1 d1 es1 r3" .
    ultimately show ?thesis using True by (simp add: loop_outcome_step)
  next
    case False
    with "11.prems" "11.IH"(3) show ?thesis by simp
  qed
qed


lemma isValid_seq_False [simp]: "isValid_seq B False ss d es p = Some (False, d, es)"
  by (induction ss) simp_all

lemma array_elements_False [simp]: "array_elements B e False ixs a es p = Some (False, a, es)"
  by (induction ixs) simp_all

lemma isValid_seq_append:
  "isValid_seq B True xs d es p = Some (True, d1, es1) \<Longrightarrow>
   isValid_seq B True (xs @ rest) d es p = isValid_seq B True rest d1 es1 p"
proof (induction xs arbitrary: d es)
  case Nil
  then show ?case by simp
next
  case (Cons x xs)
  from Cons.prems obtain v d' es' where
    step: "isValid B x d es p = Some (v, d', es')" and
    more: "isValid_seq B v xs d' es' p = Some (True, d1, es1)"
    by (auto split: Option.bind_splits)
  from more have v by (cases v) simp_all
  with step more Cons.IH [of d' es'] show ?case by simp
qed

lemma array_elements_append:
  "array_elements B e True xs a es p = Some (True, a1, es1) \<Longrightarrow>
   array_elements B e True (xs @ rest) a es p = array_elements B e True rest a1 es1 p"
proof (induction xs arbitrary: a es)
  case Nil
  then show ?case by simp
next
  case (Cons x xs)
  from Cons.prems obtain v a' es' where
    step: "TypeChecker B (set_name (show_nat x) e) a es p = Some (v, a', es')" and
    more: "array_elements B e v xs a' es' p = Some (True, a1, es1)"
    by (auto split: Option.bind_splits)
  from more have v by (cases v) simp_all
  with step more Cons.IH [of a' es'] show ?case by simp
qed

subsection \<open>Reading and writing properties\<close>

lemma digit_val_digit_char: "d < 10 \<Longrightarrow> digit_val (digit_char d) = d"
proof -
  assume "d < 10"
  then have "d \<in> {0, 1, 2, 3, 4, 5, 6, 7, 8, 9}" by auto
  then show ?thesis by (auto simp: digit_val_def digit_char_def)
qed

lemma read_nat_snoc: "read_nat (s @ [c]) = 10 * read_nat s + digit_val c"
  by (simp add: read_nat_def)

lemma read_show_nat: "read_nat (show_nat n) = n"
proof (induction n rule: show_nat.induct)
  case (1 n)
  show ?case
  proof (cases "n < 10")
    case True
    then show ?thesis
      by (simp add: show_nat.simps [of n] read_nat_def digit_val_digit_char)
  next
    case False
    with 1 have "read_nat (show_nat (n div 10)) = n div 10" by simp
    with False show ?thesis
      by (simp add: show_nat.simps [of n] read_nat_snoc digit_val_digit_char)
  qed
qed

lemma index_of_show_nat: "i < len \<Longrightarrow> index_of (show_nat i) len = Some i"
  by (simp add: index_of_def read_show_nat)

lemma index_of_Some: "index_of k len = Some i \<Longrightarrow> k = show_nat i \<and> i < len \<and> read_nat k = i"
  by (auto simp: index_of_def Let_def split: if_splits)

lemma get_set_property:
  "has_property k d = Some True \<Longrightarrow> set_property k v d = Some d' \<Longrightarrow>
   get k d' = Some v \<and> has_property k d' = Some True"
proof (cases d)
  case (Arr xs)
  assume "has_property k d = Some True" "set_property k v d = Some d'"
  with Arr obtain i where "index_of k (length xs) = Some i" by auto
  with Arr \<open>set_property k v d = Some d'\<close> show ?thesis
    by (auto simp: index_of_def Let_def split: if_splits)
next
  case (Obj kvs)
  assume "has_property k d = Some True" "set_property k v d = Some d'"
  with Obj show ?thesis by (auto simp: update_conv')
qed simp_all

lemma get_set_property_other:
  "has_property k d = Some True \<Longrightarrow> set_property k v d = Some d' \<Longrightarrow> k' \<noteq> k \<Longrightarrow>
   get k' d' = get k' d \<and> has_property k' d' = has_property k' d"
proof (cases d)
  case (Arr xs)
  assume a: "has_property k d = Some True" "set_property k v d = Some d'" "k' \<noteq> k"
  with Arr obtain i where i: "index_of k (length xs) = Some i" by auto
  then have ki: "k = show_nat i" "i < length xs" "read_nat k = i" by (auto dest: index_of_Some)
  with Arr a have d': "d' = Arr (xs[i := v])" by (simp add: Let_def)
  have "index_of k' (length xs) \<noteq> Some i" using ki(1) a(3) by (auto dest: index_of_Some)
  with d' Arr show ?thesis by (auto split: option.splits)
next
  case (Obj kvs)
  assume "has_property k d = Some True" "set_property k v d = Some d'" "k' \<noteq> k"
  with Obj show ?thesis by (auto simp: update_conv')
qed simp_all

lemma set_property_same:
  "has_property k d = Some True \<Longrightarrow> get k d = Some v \<Longrightarrow> set_property k v d = Some d"
proof (cases d)
  case (Arr xs)
  assume a: "has_property k d = Some True" "get k d = Some v"
  with Arr obtain i where i: "index_of k (length xs) = Some i" by auto
  then have ki: "k = show_nat i" "i < length xs" "read_nat k = i" by (auto dest: index_of_Some)
  with Arr a i show ?thesis by (simp add: Let_def list_update_same_conv)
next
  case (Obj kvs)
  assume "has_property k d = Some True" "get k d = Some v"
  with Obj show ?thesis by (auto simp: update_triv)
qed simp_all

lemma set_property_twice:
  "has_property k d = Some True \<Longrightarrow> set_property k v d = Some d1 \<Longrightarrow>
   set_property k w d1 = set_property k w d"
proof (cases d)
  case (Arr xs)
  assume a: "has_property k d = Some True" "set_property k v d = Some d1"
  with Arr obtain i where i: "index_of k (length xs) = Some i" by auto
  then have ki: "k = show_nat i" "i < length xs" "read_nat k = i" by (auto dest: index_of_Some)
  with Arr a i show ?thesis by (auto simp: Let_def)
next
  case (Obj kvs)
  assume "has_property k d = Some True" "set_property k v d = Some d1"
  with Obj show ?thesis by auto
qed simp_all

lemma has_property_get:
  "has_property k d = Some b \<Longrightarrow> get k d = Some w \<Longrightarrow> w \<noteq> Undefined \<Longrightarrow> b"
  by (cases d) (auto split: option.splits)

lemma has_property_get_Some: "has_property k d = Some b \<Longrightarrow> \<exists>w. get k d = Some w"
  by (cases d) auto

subsection \<open>Checking a coerced value again\<close>

lemma TypeChecker_leaf_again:
  assumes "is_leaf s" and "has_property (sname s) d = Some True"
    and "TypeChecker B s d es p = Some (True, d1, es1)"
    and "get (sname s) d1 = Some w" and "settled s w"
    and "reads_back B"
    and "has_property (sname s) d2 = Some True" and "get (sname s) d2 = Some w"
  shows "TypeChecker B s d2 es2 p2 = Some (True, d2, es2)"
proof (cases s)
  case (NumericSchema n t mn mx opt)
  from assms(2) obtain x where x: "get n d = Some x"
    using NumericSchema by (auto dest: has_property_get_Some)
  define pv where "pv = (if t = TInt then parseInt B x else parseFloat B x)"
  from assms(3) x NumericSchema have
    ok: "pv \<noteq> NaN" "\<not> (bound_set mn \<and> num_lt pv (the mn))" "\<not> (bound_set mx \<and> num_lt (the mx) pv)"
      and d1: "set_property n (Num pv) d = Some d1"
    by (cases t; auto simp: NumberTypeChecker_def Let_def pv_def split: if_splits Option.bind_splits)+
  from get_set_property [OF _ d1] assms(2,4) NumericSchema have w: "w = Num pv" by simp
  with assms(5,6) NumericSchema have again: "(if t = TInt then parseInt B (Num pv) else parseFloat B (Num pv)) = pv"
    by (cases t) (simp_all add: pv_def reads_back_def)
  from set_property_same [OF assms(7,8)] w NumericSchema
  have "set_property n (Num pv) d2 = Some d2" by simp
  with ok again assms(8) w NumericSchema show ?thesis
    by (cases t) (auto simp: NumberTypeChecker_def Let_def)
next
  case (StringSchema n l mn mx opt)
  from assms(2) obtain x where x: "get n d = Some x"
    using StringSchema by (auto dest: has_property_get_Some)
  define tv where "tv = (case x of Str s \<Rightarrow> Some s | _ \<Rightarrow> JSON_stringify B x)"
  have tv2: "(case of_value tv of Str s \<Rightarrow> Some s | _ \<Rightarrow> JSON_stringify B (of_value tv)) = tv"
    using assms(6) by (cases tv) (simp_all add: of_value_def reads_back_def)
  from assms(3) x StringSchema have
    ok: "length_mismatch (StringSchema n l mn mx opt) tv = Some False"
      "below_min_length (StringSchema n l mn mx opt) tv = Some False"
      "above_max_length (StringSchema n l mn mx opt) tv = Some False"
    and d1: "set_property n (of_value tv) d = Some d1"
    by (auto simp: TypeChecker_string_def Let_def tv_def split: if_splits Option.bind_splits)
  from get_set_property [OF _ d1] assms(2,4) StringSchema have w: "w = of_value tv" by simp
  from set_property_same [OF assms(7,8)] w StringSchema
  have same: "set_property n (of_value tv) d2 = Some d2" by simp
  show ?thesis
    using assms(8) w StringSchema same tv2 ok
    by (simp add: TypeChecker_string_def Let_def)
next
  case (BooleanSchema n a opt)
  from assms(2) obtain x where x: "get n d = Some x"
    using BooleanSchema by (auto dest: has_property_get_Some)
  define y where "y = (if x = Str ''true'' \<or> x = Str ''1'' then Bool True else x)"
  from assms(3) x BooleanSchema have ok: "x \<in> set (allowedValues (BooleanSchema n a opt))"
    and d1: "set_property n y d = Some d1"
    by (auto simp: TypeChecker_boolean_def y_def split: if_splits Option.bind_splits)
  from get_set_property [OF _ d1] assms(2,4) BooleanSchema have w: "w = y" by simp
  from ok have y: "y \<in> set (allowedValues (BooleanSchema n a opt))"
    "(if y = Str ''true'' \<or> y = Str ''1'' then Bool True else y) = y"
    by (auto simp: y_def allowedValues_def)
  from set_property_same [OF assms(7,8)] w BooleanSchema
  have "set_property n y d2 = Some d2" by simp
  with y assms(8) w BooleanSchema show ?thesis
    by (simp add: TypeChecker_boolean_def)
next
  case (EnumSchema n syms opt)
  from assms(2) obtain x where x: "get n d = Some x"
    using EnumSchema by (auto dest: has_property_get_Some)
  from assms(3) x EnumSchema have d1: "d1 = d"
    and ok: "\<not> (typeof x \<noteq> ''number'' \<and> typeof x \<noteq> ''string'')"
      "array_includes syms x"
    by (auto simp: TypeChecker_enum_def split: if_splits)
  with x assms(4) EnumSchema have "w = x" by simp
  with ok assms(8) EnumSchema show ?thesis
    by (simp add: TypeChecker_enum_def)
next
  case (ArraySchema n e opt)
  with assms(1) show ?thesis by simp
next
  case (ObjectSchema n fs opt)
  with assms(1) show ?thesis by simp
qed

subsection \<open>What a check writes\<close>

lemma written_refl [simp]: "written k d d"
  by (simp add: written_def)

lemma written_set: "has_property k d = Some True \<Longrightarrow> set_property k y d = Some d1 \<Longrightarrow> written k d d1"
  by (auto simp: written_def)

lemma written_has_property: "written k d d1 \<Longrightarrow> has_property k' d1 = has_property k' d"
proof (cases "d1 = d")
  case False
  assume "written k d d1"
  with False obtain y where h: "has_property k d = Some True" and s: "set_property k y d = Some d1"
    by (auto simp: written_def)
  show ?thesis
  proof (cases "k' = k")
    case True
    with get_set_property [OF h s] h show ?thesis by simp
  next
    case False
    with get_set_property_other [OF h s] show ?thesis by simp
  qed
qed simp

lemma written_other:
  "written k d d1 \<Longrightarrow> k' \<noteq> k \<Longrightarrow> get k' d1 = get k' d"
proof (cases "d1 = d")
  case False
  assume "written k d d1" "k' \<noteq> k"
  with False obtain y where h: "has_property k d = Some True" and s: "set_property k y d = Some d1"
    by (auto simp: written_def)
  from get_set_property_other [OF h s \<open>k' \<noteq> k\<close>] show ?thesis by simp
qed simp

lemma written_trans:
  assumes "written k d d1" and "written k d1 d2"
  shows "written k d d2"
proof (cases "d1 = d \<or> d2 = d1")
  case True
  with assms show ?thesis by auto
next
  case False
  with assms obtain y z where
    h: "has_property k d = Some True" and s: "set_property k y d = Some d1" and
    s2: "set_property k z d1 = Some d2"
    unfolding written_def by blast
  from set_property_twice [OF h s, of z] s2 have "set_property k z d = Some d2" by simp
  with h show ?thesis unfolding written_def by blast
qed

lemma written_shape:
  "written k d d1 \<Longrightarrow>
   typeof d1 = typeof d \<and> isArray d1 = isArray d \<and> length (elements d1) = length (elements d)"
proof (cases "d1 = d")
  case False
  assume "written k d d1"
  with False obtain y where h: "has_property k d = Some True" and s: "set_property k y d = Some d1"
    by (auto simp: written_def)
  show ?thesis
  proof (cases d)
    case (Arr xs)
    with h obtain i where "index_of k (length xs) = Some i" by auto
    then have "k = show_nat i" "i < length xs" "read_nat k = i" by (auto dest: index_of_Some)
    with Arr s show ?thesis by (auto simp: Let_def typeof_def isArray_def elements_def)
  next
    case (Obj kvs)
    with s show ?thesis by (auto simp: typeof_def isArray_def elements_def)
  qed (use h in simp_all)
qed simp

lemma TypeChecker_written:
  assumes "has_property (sname s) d = Some True" and "TypeChecker B s d es p = Some (v, d1, es1)"
  shows "written (sname s) d d1"
proof (cases s)
  case (NumericSchema n t mn mx opt)
  with assms show ?thesis
    by (auto simp: NumberTypeChecker_def Let_def written_def split: if_splits Option.bind_splits)
next
  case (StringSchema n l mn mx opt)
  with assms show ?thesis
    by (auto simp: TypeChecker_string_def Let_def written_def split: if_splits Option.bind_splits)
next
  case (BooleanSchema n a opt)
  with assms show ?thesis
    by (auto simp: TypeChecker_boolean_def Let_def written_def split: if_splits Option.bind_splits)
next
  case (EnumSchema n syms opt)
  with assms show ?thesis
    by (auto simp: TypeChecker_enum_def Let_def written_def split: if_splits Option.bind_splits)
next
  case (ArraySchema n e opt)
  from assms(2) ArraySchema obtain raw where raw: "get n d = Some raw"
    by (auto split: Option.bind_splits)
  define x where "x = (if isArray raw then raw else parsed_or_raw B raw)"
  show ?thesis
  proof (cases "isArray x")
    case False
    with assms(2) ArraySchema raw x_def show ?thesis by auto
  next
    case True
    with assms(2) ArraySchema raw x_def obtain data1 value' where
      d1: "(if isArray raw then Some data1 = Some d else set_property n x d = Some data1)" and
      w: "set_property n value' data1 = Some d1"
      by (auto simp: Let_def split: Option.bind_splits if_splits)
    from d1 assms(1) ArraySchema have "written n d data1"
      by (auto simp: written_def split: if_splits)
    moreover from this assms(1) ArraySchema have "has_property n data1 = Some True"
      by (simp add: written_has_property)
    then have "written n data1 d1" using w by (rule written_set)
    ultimately show ?thesis using ArraySchema by (auto intro: written_trans)
  qed
next
  case (ObjectSchema n fs opt)
  from assms(2) ObjectSchema obtain raw where raw: "get n d = Some raw"
    by (auto split: Option.bind_splits)
  define x where "x = (if typeof raw = ''object'' then raw else parsed_or_raw B raw)"
  show ?thesis
  proof (cases "typeof x = ''object''")
    case False
    with assms(2) ObjectSchema raw x_def show ?thesis by auto
  next
    case True
    with assms(2) ObjectSchema raw x_def obtain data1 value' where
      d1: "(if typeof raw = ''object'' then Some data1 = Some d else set_property n x d = Some data1)" and
      w: "set_property n value' data1 = Some d1"
      by (auto simp: Let_def split: Option.bind_splits if_splits)
    from d1 assms(1) ObjectSchema have "written n d data1"
      by (auto simp: written_def split: if_splits)
    moreover from this assms(1) ObjectSchema have "has_property n data1 = Some True"
      by (simp add: written_has_property)
    then have "written n data1 d1" using w by (rule written_set)
    ultimately show ?thesis using ObjectSchema by (auto intro: written_trans)
  qed
qed

lemma isValid_written:
  assumes "isValid B s d es p = Some (v, d1, es1)"
  shows "written (sname s) d d1"
proof (cases "TypeChecker B s d es p = Some (v, d1, es1) \<and> has_property (sname s) d = Some True")
  case True
  then show ?thesis by (auto intro: TypeChecker_written)
next
  case False
  with assms show ?thesis
    by (auto simp: isValid.simps split: Option.bind_splits if_splits)
qed

lemma isValid_seq_frame:
  "isValid_seq B valid ss d es p = Some (v, d1, es1) \<Longrightarrow>
   (\<forall>k. k \<notin> sname ` set ss \<longrightarrow> get k d1 = get k d) \<and>
   (\<forall>k. has_property k d1 = has_property k d) \<and> typeof d1 = typeof d"
proof (induction ss arbitrary: valid d es)
  case Nil
  then show ?case by simp
next
  case (Cons s ss)
  show ?case
  proof (cases valid)
    case False
    with Cons.prems show ?thesis by simp
  next
    case True
    with Cons.prems obtain v' d' es' where
      step: "isValid B s d es p = Some (v', d', es')" and
      rest: "isValid_seq B v' ss d' es' p = Some (v, d1, es1)"
      by (auto split: Option.bind_splits)
    from step have w: "written (sname s) d d'" by (rule isValid_written)
    have "get k d1 = get k d" if "k \<notin> sname ` set (s # ss)" for k
      using that Cons.IH [OF rest] written_other [OF w, of k] by auto
    moreover have "has_property k d1 = has_property k d" for k
      using Cons.IH [OF rest] written_has_property [OF w, of k] by auto
    moreover have "typeof d1 = typeof d"
      using Cons.IH [OF rest] written_shape [OF w] by auto
    ultimately show ?thesis by blast
  qed
qed

lemma array_elements_frame:
  "array_elements B e valid ixs a es p = Some (v, a1, es1) \<Longrightarrow>
   \<forall>i\<in>set ixs. has_property (show_nat i) a = Some True \<Longrightarrow>
   (\<forall>k. k \<notin> show_nat ` set ixs \<longrightarrow> get k a1 = get k a) \<and>
   (\<forall>k. has_property k a1 = has_property k a) \<and>
   isArray a1 = isArray a \<and> length (elements a1) = length (elements a)"
proof (induction ixs arbitrary: valid a es)
  case Nil
  then show ?case by simp
next
  case (Cons i ixs)
  show ?case
  proof (cases valid)
    case False
    with Cons.prems show ?thesis by simp
  next
    case True
    with Cons.prems obtain v' a' es' where
      step: "TypeChecker B (set_name (show_nat i) e) a es p = Some (v', a', es')" and
      rest: "array_elements B e v' ixs a' es' p = Some (v, a1, es1)"
      by (auto split: Option.bind_splits)
    from Cons.prems(2) have "has_property (sname (set_name (show_nat i) e)) a = Some True"
      by simp
    from TypeChecker_written [OF this step] have w: "written (show_nat i) a a'" by simp
    from Cons.prems(2) written_has_property [OF w]
    have "\<forall>i\<in>set ixs. has_property (show_nat i) a' = Some True" by simp
    note ih = Cons.IH [OF rest this]
    have "get k a1 = get k a" if "k \<notin> show_nat ` set (i # ixs)" for k
      using that ih written_other [OF w, of k] by auto
    moreover have "has_property k a1 = has_property k a" for k
      using ih written_has_property [OF w, of k] by auto
    moreover have "isArray a1 = isArray a \<and> length (elements a1) = length (elements a)"
      using ih written_shape [OF w] by auto
    ultimately show ?thesis by blast
  qed
qed

subsection \<open>Validating a coerced bag again\<close>

lemma distinct_names_set_name [simp]: "distinct_names (set_name k s) = distinct_names s"
  by (cases s) simp_all

lemma settled_set_name [simp]: "settled (set_name k s) w = settled s w"
  by (cases s) simp_all

lemma show_nat_inj: "show_nat i = show_nat j \<Longrightarrow> i = j"
  by (metis read_show_nat)

lemma get_index: "i < length xs \<Longrightarrow> get (show_nat i) (Arr xs) = Some (xs ! i)"
  by (simp add: index_of_show_nat)

lemma has_property_index: "i < length xs \<Longrightarrow> has_property (show_nat i) (Arr xs) = Some True"
  by (simp add: index_of_show_nat)

lemma isValid_seq_True_valid: "isValid_seq B valid ss d es p = Some (True, d1, es1) \<Longrightarrow> valid"
  by (cases valid) simp_all

lemma array_elements_True_valid:
  "array_elements B e valid ixs a es p = Some (True, a1, es1) \<Longrightarrow> valid"
  by (cases valid) simp_all

lemma field_get: "get k d = Some w \<Longrightarrow> field k d = w"
  by (simp add: field_def)

lemma TypeChecker_not_missing:
  assumes "TypeChecker B s d es p = Some (True, d1, es1)"
    and "has_property (sname s) d = Some True"
    and "get (sname s) d = Some x" and "\<not> missing x"
    and "get (sname s) d1 = Some w" and "reads_back B"
  shows "missing w \<longrightarrow> stype s = ''object'' \<and> w = Null"
proof (cases s)
  case (NumericSchema n t mn mx opt)
  with assms(1,3) obtain y where "set_property n (Num y) d = Some d1"
    by (auto simp: NumberTypeChecker_def Let_def split: if_splits Option.bind_splits)
  from get_set_property [OF _ this] assms(2,5) NumericSchema have "w = Num y" by simp
  then show ?thesis by (simp add: missing_def)
next
  case (StringSchema n l mn mx opt)
  define tv where "tv = (case x of Str s \<Rightarrow> Some s | _ \<Rightarrow> JSON_stringify B x)"
  from assms(4,6) have "tv \<noteq> None"
    by (cases x) (simp_all add: tv_def missing_def reads_back_def)
  moreover from assms(1,3) StringSchema have "set_property n (of_value tv) d = Some d1"
    by (auto simp: TypeChecker_string_def Let_def tv_def split: if_splits Option.bind_splits)
  from get_set_property [OF _ this] assms(2,5) StringSchema have "w = of_value tv" by simp
  ultimately show ?thesis by (auto simp: missing_def of_value_def)
next
  case (BooleanSchema n a opt)
  define y where "y = (if x = Str ''true'' \<or> x = Str ''1'' then Bool True else x)"
  from assms(1,3) BooleanSchema have "set_property n y d = Some d1"
    by (auto simp: TypeChecker_boolean_def y_def split: if_splits Option.bind_splits)
  from get_set_property [OF _ this] assms(2,5) BooleanSchema have "w = y" by simp
  with assms(4) show ?thesis by (auto simp: missing_def y_def)
next
  case (EnumSchema n syms opt)
  with assms(1,3) have "d1 = d"
    by (auto simp: TypeChecker_enum_def split: if_splits)
  with assms(3,4,5) show ?thesis by simp
next
  case (ArraySchema n e opt)
  define v where "v = (if isArray x then x else parsed_or_raw B x)"
  from assms(1,3) ArraySchema v_def have isv: "isArray v"
    by (auto simp: Let_def split: if_splits)
  with assms(1,3) ArraySchema v_def obtain data1 value' q where
    d1: "(if isArray x then Some d else set_property n v d) = Some data1" and
    loop: "array_elements B e True [0..<length (elements v)] v es q = Some (True, value', es1)" and
    wr: "set_property n value' data1 = Some d1"
    by (auto simp: Let_def split: Option.bind_splits if_splits)
  from d1 assms(2) ArraySchema have "written n d data1"
    by (auto simp: written_def split: if_splits)
  with assms(2) ArraySchema have "has_property n data1 = Some True"
    by (simp add: written_has_property)
  from get_set_property [OF this wr] assms(5) ArraySchema have w: "w = value'" by simp
  from isv obtain xs where "v = Arr xs" by (cases v) (simp_all add: isArray_def)
  then have "\<forall>i\<in>set [0..<length (elements v)]. has_property (show_nat i) v = Some True"
    by (auto simp: elements_def index_of_show_nat)
  from array_elements_frame [OF loop this] isv have "isArray value'" by simp
  with w show ?thesis by (auto simp: missing_def isArray_def)
next
  case (ObjectSchema n fs opt)
  define v where "v = (if typeof x = ''object'' then x else parsed_or_raw B x)"
  from assms(1,3) ObjectSchema v_def have isv: "typeof v = ''object''"
    by (auto simp: Let_def split: if_splits)
  with assms(1,3) ObjectSchema v_def obtain data1 value' where
    d1: "(if typeof x = ''object'' then Some d else set_property n v d) = Some data1" and
    loop: "isValid_seq B True fs v es (error_path p n) = Some (True, value', es1)" and
    wr: "set_property n value' data1 = Some d1"
    by (auto simp: Let_def split: Option.bind_splits if_splits)
  from d1 assms(2) ObjectSchema have "written n d data1"
    by (auto simp: written_def split: if_splits)
  with assms(2) ObjectSchema have "has_property n data1 = Some True"
    by (simp add: written_has_property)
  from get_set_property [OF this wr] assms(5) ObjectSchema have w: "w = value'" by simp
  from isValid_seq_frame [OF loop] isv have "typeof value' = ''object''" by simp
  with w ObjectSchema show ?thesis by (auto simp: missing_def typeof_def)
qed

lemma again:
  "isValid B s d es p = Some (True, d1, es1) \<Longrightarrow> distinct_names s \<Longrightarrow>
     get (sname s) d1 = Some w \<Longrightarrow>
     (stype s = ''object'' \<and> w = Null \<longrightarrow> optional s = Some True) \<Longrightarrow> settled s w \<Longrightarrow>
     reads_back B \<Longrightarrow>
     has_property (sname s) d2 = Some b2 \<Longrightarrow> get (sname s) d2 = Some w \<Longrightarrow>
     isValid B s d2 es2 p2 = Some (True, d2, es2)"
  "isValid_seq B valid ss d es p = Some (True, d1, es1) \<Longrightarrow> distinct (map sname ss) \<Longrightarrow>
     list_all distinct_names ss \<Longrightarrow> settled_fields ss d1 \<Longrightarrow>
     reads_back B \<Longrightarrow>
     isValid_seq B True ss d1 es2 p2 = Some (True, d1, es2)"
  "TypeChecker B s d es p = Some (True, d1, es1) \<Longrightarrow> has_property (sname s) d = Some True \<Longrightarrow>
     distinct_names s \<Longrightarrow> get (sname s) d1 = Some w \<Longrightarrow> settled s w \<Longrightarrow>
     reads_back B \<Longrightarrow>
     has_property (sname s) d2 = Some True \<Longrightarrow> get (sname s) d2 = Some w \<Longrightarrow>
     TypeChecker B s d2 es2 p2 = Some (True, d2, es2)"
  "array_elements B e valid ixs a es p = Some (True, a1, es1) \<Longrightarrow> distinct ixs \<Longrightarrow>
     \<forall>i\<in>set ixs. has_property (show_nat i) a = Some True \<Longrightarrow> distinct_names e \<Longrightarrow>
     \<forall>i\<in>set ixs. settled e (field (show_nat i) a1) \<Longrightarrow>
     reads_back B \<Longrightarrow>
     array_elements B e True ixs a1 es2 p2 = Some (True, a1, es2)"
proof (induction B s d es p and B valid ss d es p and B s d es p and B e valid ixs a es p
    arbitrary: d1 es1 w d2 b2 es2 p2 and d1 es1 es2 p2 and d1 es1 w d2 es2 p2 and a1 es1 es2 p2
    rule: isValid_isValid_seq_TypeChecker_array_elements.induct)
  case (1 B schema data errors path)
  from "1.prems"(1) obtain a aa where
    a: "has_property (sname schema) data = Some a" and
    aa: "(if \<not> a then Some True
         else get (sname schema) data \<bind> (\<lambda>v. Some (v = Null \<or> v = Undefined))) = Some aa"
    by (auto simp: isValid.simps split: Option.bind_splits)
  have opt: "missing w \<longrightarrow> optional schema = Some True"
  proof (cases aa)
    case True
    with "1.prems"(1) a aa show ?thesis
      by (auto simp: isValid.simps split: Option.bind_splits if_splits)
  next
    case False
    with "1.prems"(1) a aa have tc: "TypeChecker B schema data errors path = Some (True, d1, es1)"
      and pres: "has_property (sname schema) data = Some True"
      by (auto simp: isValid.simps split: Option.bind_splits if_splits)
    from False a aa obtain x where "get (sname schema) data = Some x" "\<not> missing x"
      by (auto simp: missing_def split: Option.bind_splits if_splits)
    from TypeChecker_not_missing [OF tc pres this "1.prems"(3,6)] "1.prems"(4)
    show ?thesis by blast
  qed
  show ?case
  proof (cases "missing w")
    case True
    with opt "1.prems"(7,8) show ?thesis
      by (auto simp: isValid.simps missing_def)
  next
    case False
    with "1.prems"(7,8) have b2: "has_property (sname schema) d2 = Some True"
      by (auto simp: missing_def dest: has_property_get)
    have "\<not> aa"
    proof
      assume aa
      with "1.prems"(1) a aa have "d1 = data"
        by (auto simp: isValid.simps split: Option.bind_splits if_splits)
      with "1.prems"(3) a aa \<open>aa\<close> False show False
        by (cases data) (auto simp: missing_def split: if_splits option.splits)
    qed
    with "1.prems"(1) a aa have tc: "TypeChecker B schema data errors path = Some (True, d1, es1)"
      and pres: "has_property (sname schema) data = Some True"
      by (auto simp: isValid.simps split: Option.bind_splits if_splits)
    from "1.IH" [OF a aa \<open>\<not> aa\<close> tc pres "1.prems"(2,3,5,6) b2 "1.prems"(8)]
    have "TypeChecker B schema d2 es2 p2 = Some (True, d2, es2)" .
    with b2 "1.prems"(8) False show ?thesis
      by (simp add: isValid.simps missing_def)
  qed
next
  case (2 B valid data errors path)
  then show ?case by simp
next
  case (3 B valid entry rest data errors path)
  from "3.prems"(1) have valid: valid by (rule isValid_seq_True_valid)
  with "3.prems"(1) obtain v d' es' where
    step: "isValid B entry data errors path = Some (v, d', es')" and
    more: "isValid_seq B v rest d' es' path = Some (True, d1, es1)"
    by (auto split: Option.bind_splits)
  from more have v by (rule isValid_seq_True_valid)
  from step obtain b where b: "has_property (sname entry) data = Some b"
    by (auto simp: isValid.simps split: Option.bind_splits)
  from isValid_written [OF step] have wr: "written (sname entry) data d'" .
  from b written_has_property [OF wr] have "has_property (sname entry) d' = Some b" by simp
  then obtain w where w': "get (sname entry) d' = Some w" by (auto dest: has_property_get_Some)
  from "3.prems"(2) have notin: "sname entry \<notin> sname ` set rest" by auto
  from isValid_seq_frame [OF more] notin w' \<open>has_property (sname entry) d' = Some b\<close>
  have w1: "get (sname entry) d1 = Some w" and h1: "has_property (sname entry) d1 = Some b"
    by auto
  from "3.prems"(4) w1 have
    st: "stype entry = ''object'' \<and> w = Null \<longrightarrow> optional entry = Some True" "settled entry w"
    "settled_fields rest d1"
    by (simp_all add: field_get)
  from "3.prems"(3) have dn: "distinct_names entry" "list_all distinct_names rest" by simp_all
  from step \<open>v\<close> have step': "isValid B entry data errors path = Some (True, d', es')" by simp
  from "3.IH"(1) [OF valid step' dn(1) w' st(1,2) "3.prems"(5) h1 w1]
  have one: "isValid B entry d1 es2 p2 = Some (True, d1, es2)" .
  from more \<open>v\<close> have more': "isValid_seq B v rest d' es' path = Some (True, d1, es1)" by simp
  from "3.prems"(2) have "distinct (map sname rest)" by simp
  from "3.IH"(2) [OF valid step refl refl more' this dn(2) st(3) "3.prems"(5)]
  have "isValid_seq B True rest d1 es2 p2 = Some (True, d1, es2)" .
  with one show ?case by simp
next
  case (4 B n t mn mx opt data errors path)
  from TypeChecker_leaf_again [OF _ "4.prems"(2,1,4,5,6,7,8)] show ?case by simp
next
  case (5 B n l mn mx opt data errors path)
  from TypeChecker_leaf_again [OF _ "5.prems"(2,1,4,5,6,7,8)] show ?case by simp
next
  case (6 B n a opt data errors path)
  from TypeChecker_leaf_again [OF _ "6.prems"(2,1,4,5,6,7,8)] show ?case by simp
next
  case (7 B n syms opt data errors path)
  from TypeChecker_leaf_again [OF _ "7.prems"(2,1,4,5,6,7,8)] show ?case by simp
next
  case (8 B n e opt data errors path)
  from "8.prems"(1) obtain raw where raw: "get n data = Some raw"
    by (auto split: Option.bind_splits)
  define x where "x = (if isArray raw then raw else parsed_or_raw B raw)"
  define q where "q = (if path \<noteq> [] then path @ ''.'' @ n @ ''['' else n @ ''['')"
  define q2 where "q2 = (if p2 \<noteq> [] then p2 @ ''.'' @ n @ ''['' else n @ ''['')"
  from "8.prems"(1) raw x_def have isx: "isArray x"
    by (auto simp: Let_def split: if_splits)
  with "8.prems"(1) raw x_def q_def obtain data1 value' where
    d1: "(if isArray raw then Some data else set_property n x data) = Some data1" and
    loop: "array_elements B e True [0..<length (elements x)] x errors q = Some (True, value', es1)" and
    wr: "set_property n value' data1 = Some d1"
    by (auto simp: Let_def split: Option.bind_splits if_splits)
  from d1 "8.prems"(2) have "written n data data1"
    by (auto simp: written_def split: if_splits)
  with "8.prems"(2) have "has_property n data1 = Some True"
    by (simp add: written_has_property)
  from get_set_property [OF this wr] "8.prems"(4) have w: "w = value'" by simp
  from isx obtain xs where xs: "x = Arr xs" by (cases x) (simp_all add: isArray_def)
  then have pres: "\<forall>i\<in>set [0..<length (elements x)]. has_property (show_nat i) x = Some True"
    by (auto simp: elements_def index_of_show_nat)
  from array_elements_frame [OF loop pres] isx
  have shape: "isArray value'" "length (elements value') = length (elements x)" by simp_all
  then obtain ys where ys: "value' = Arr ys" by (cases value') (simp_all add: isArray_def)
  from "8.prems"(5) w ys have
    "\<forall>i\<in>set [0..<length (elements x)]. settled e (field (show_nat i) value')"
    using shape(2)
    by (auto simp: elements_def field_def index_of_show_nat list_all_length)
  from "8.IH" [OF raw x_def _ d1 loop [unfolded q_def] _ pres _ this "8.prems"(6), of es2 q2] isx
    "8.prems"(3)
  have "array_elements B e True [0..<length (elements x)] value' es2 q2 = Some (True, value', es2)"
    by simp
  moreover from set_property_same [OF "8.prems"(7,8)] w
  have "set_property n value' d2 = Some d2" by simp
  ultimately show ?case
    using "8.prems"(8) w shape q2_def by (simp add: Let_def)
next
  case (9 B n fs opt data errors path)
  from "9.prems"(1) obtain raw where raw: "get n data = Some raw"
    by (auto split: Option.bind_splits)
  define x where "x = (if typeof raw = ''object'' then raw else parsed_or_raw B raw)"
  from "9.prems"(1) raw x_def have isx: "typeof x = ''object''"
    by (auto simp: Let_def split: if_splits)
  with "9.prems"(1) raw x_def obtain data1 value' where
    d1: "(if typeof raw = ''object'' then Some data else set_property n x data) = Some data1" and
    loop: "isValid_seq B True fs x errors (error_path path n) = Some (True, value', es1)" and
    wr: "set_property n value' data1 = Some d1"
    by (auto simp: Let_def split: Option.bind_splits if_splits)
  from d1 "9.prems"(2) have "written n data data1"
    by (auto simp: written_def split: if_splits)
  with "9.prems"(2) have "has_property n data1 = Some True"
    by (simp add: written_has_property)
  from get_set_property [OF this wr] "9.prems"(4) have w: "w = value'" by simp
  from isValid_seq_frame [OF loop] isx have shape: "typeof value' = ''object''" by simp
  from "9.prems"(3) have dn: "distinct (map sname fs)" "list_all distinct_names fs" by simp_all
  from "9.prems"(5) w have "settled_fields fs value'" by simp
  from "9.IH" [OF raw x_def _ d1 loop dn this "9.prems"(6), of es2 "error_path p2 n"] isx
  have "isValid_seq B True fs value' es2 (error_path p2 n) = Some (True, value', es2)"
    by simp
  moreover from set_property_same [OF "9.prems"(7,8)] w
  have "set_property n value' d2 = Some d2" by simp
  ultimately show ?case
    using "9.prems"(8) w shape by (simp add: Let_def)
next
  case (10 B e valid "value" errors path)
  then show ?case by simp
next
  case (11 B e valid i "is" "value" errors path)
  from "11.prems"(1) have valid: valid by (rule array_elements_True_valid)
  with "11.prems"(1) obtain v a' es' where
    step: "TypeChecker B (set_name (show_nat i) e) value errors path = Some (v, a', es')" and
    more: "array_elements B e v is a' es' path = Some (True, a1, es1)"
    by (auto split: Option.bind_splits)
  from more have v by (rule array_elements_True_valid)
  from "11.prems"(3) have hp: "has_property (sname (set_name (show_nat i) e)) value = Some True"
    by simp
  from TypeChecker_written [OF hp step] have wr: "written (show_nat i) value a'" by simp
  from hp written_has_property [OF wr] have hp': "has_property (show_nat i) a' = Some True"
    by simp
  then obtain w where w': "get (show_nat i) a' = Some w" by (auto dest: has_property_get_Some)
  from "11.prems"(3) written_has_property [OF wr]
  have pres: "\<forall>j\<in>set is. has_property (show_nat j) a' = Some True" by simp
  from "11.prems"(2) have notin: "show_nat i \<notin> show_nat ` set is"
    by (auto dest: show_nat_inj)
  from array_elements_frame [OF more pres] notin w' hp'
  have w1: "get (show_nat i) a1 = Some w" and h1: "has_property (show_nat i) a1 = Some True"
    by auto
  from "11.prems"(5) w1 have st: "settled e w" "\<forall>j\<in>set is. settled e (field (show_nat j) a1)"
    by (simp_all add: field_get)
  from step \<open>v\<close> have step': "TypeChecker B (set_name (show_nat i) e) value errors path =
      Some (True, a', es')" by simp
  from "11.IH"(1) [OF valid step' hp _ _ _ "11.prems"(6), of w a1 es2 p2] "11.prems"(4) w' st(1) h1 w1
  have one: "TypeChecker B (set_name (show_nat i) e) a1 es2 p2 = Some (True, a1, es2)"
    by simp
  from "11.prems"(2) have "distinct is" by simp
  from "11.IH"(2) [OF valid step refl refl more this pres "11.prems"(4) st(2) "11.prems"(6)]
  have "array_elements B e True is a1 es2 p2 = Some (True, a1, es2)" .
  with one show ?case by simp
qed

subsection \<open>The store under validation\<close>

lemma extends_nth: "extends st st' = (length st \<le> length st' \<and> (\<forall>x<length st. st' ! x = st ! x))"
  by (auto simp: extends_def list_eq_iff_nth_eq)

lemma same_but_nth:
  "same_but c st st' =
     (length st \<le> length st' \<and> (\<forall>x<length st. x \<noteq> c \<longrightarrow> st' ! x = st ! x))"
proof (cases "length st \<le> length st'")
  case True
  then have len: "length ((take (length st) st')[c := st ! c]) = length st" by simp
  have "((take (length st) st')[c := st ! c] = st) =
      (\<forall>x<length st. x \<noteq> c \<longrightarrow> st' ! x = st ! x)"
  proof
    assume eq: "(take (length st) st')[c := st ! c] = st"
    show "\<forall>x<length st. x \<noteq> c \<longrightarrow> st' ! x = st ! x"
    proof (intro allI impI)
      fix x assume x: "x < length st" "x \<noteq> c"
      from eq have "((take (length st) st')[c := st ! c]) ! x = st ! x" by simp
      with x True show "st' ! x = st ! x" by simp
    qed
  next
    assume all: "\<forall>x<length st. x \<noteq> c \<longrightarrow> st' ! x = st ! x"
    show "(take (length st) st')[c := st ! c] = st"
    proof (rule nth_equalityI)
      show "length ((take (length st) st')[c := st ! c]) = length st" by (rule len)
    next
      fix i assume "i < length ((take (length st) st')[c := st ! c])"
      with len have i: "i < length st" by simp
      with True all show "(take (length st) st')[c := st ! c] ! i = st ! i"
        by (cases "i = c") simp_all
    qed
  qed
  with True show ?thesis by (simp add: same_but_def)
next
  case False
  then show ?thesis by (simp add: same_but_def)
qed

lemma extends_refl [simp]: "extends st st"
  by (simp add: extends_def)

lemma extends_trans: "extends st st1 \<Longrightarrow> extends st1 st2 \<Longrightarrow> extends st st2"
  by (auto simp: extends_nth)

lemma same_but_refl [simp]: "same_but c st st"
  by (simp add: same_but_nth)

lemma same_but_update: "same_but c st (st[c := x])"
  by (simp add: same_but_nth)

lemma same_but_trans: "same_but c st st1 \<Longrightarrow> same_but c st1 st2 \<Longrightarrow> same_but c st st2"
  by (auto simp: same_but_nth)

lemma extends_same_but: "extends st st' \<Longrightarrow> same_but c st st'"
  by (auto simp: same_but_nth extends_nth)

lemma same_but_clone: "same_but (length st) (st @ [x]) st' \<Longrightarrow> extends st st'"
  by (auto simp: same_but_nth extends_nth nth_append)

lemma write_back_store: "write_back n d1 run = Some (r, st') \<Longrightarrow> \<exists>r1. run = Some (r1, st')"
  by (auto simp: write_back_def split: option.splits prod.splits)

lemma isValid_s_frame:
  assumes H: "\<And>a d es p st r st'. TypeChecker_s f B a d es p st = Some (r, st') \<Longrightarrow> extends st st'"
    and "isValid_s f B a d es p st = Some (r, st')"
  shows "extends st st'"
  using assms(2) H [of a d es p st r st']
  by (auto simp: isValid_s.simps split: option.splits)

lemma isValid_seq_s_frame:
  assumes H: "\<And>a d es p st r st'. TypeChecker_s f B a d es p st = Some (r, st') \<Longrightarrow> extends st st'"
  shows "isValid_seq_s f B valid as d es p st = Some (r, st') \<Longrightarrow> extends st st'"
proof (induction as arbitrary: valid d es st)
  case Nil
  then show ?case by simp
next
  case (Cons a as)
  show ?case
  proof (cases valid)
    case False
    with Cons show ?thesis by simp
  next
    case True
    with Cons.prems obtain r1 st1 where
      step: "isValid_s f B a d es p st = Some (r1, st1)"
      by (auto split: option.splits)
    from isValid_s_frame [OF H step] have e1: "extends st st1" .
    show ?thesis
    proof (cases r1)
      case None
      with Cons.prems True step e1 show ?thesis by simp
    next
      case (Some t)
      obtain v d1 es1 where t: "t = (v, d1, es1)" by (cases t)
      with Cons.prems True step Some have "isValid_seq_s f B v as d1 es1 p st1 = Some (r, st')"
        by simp
      from Cons.IH [OF this] e1 show ?thesis by (rule extends_trans [rotated])
    qed
  qed
qed

lemma array_elements_s_frame:
  assumes H: "\<And>a d es p st r st'. TypeChecker_s f B a d es p st = Some (r, st') \<Longrightarrow> extends st st'"
  shows "array_elements_s f B c valid ixs v es p st = Some (r, st') \<Longrightarrow> same_but c st st'"
proof (induction ixs arbitrary: valid v es st)
  case Nil
  then show ?case by simp
next
  case (Cons i ixs)
  let ?st1 = "st[c := oset_name (show_nat i) (st ! c)]"
  have u: "same_but c st ?st1" by (rule same_but_update)
  show ?case
  proof (cases valid)
    case False
    with Cons.prems have "array_elements_s f B c valid ixs v es p ?st1 = Some (r, st')" by simp
    from u Cons.IH [OF this] show ?thesis by (rule same_but_trans)
  next
    case True
    with Cons.prems obtain r1 st2 where
      step: "TypeChecker_s f B c v es p ?st1 = Some (r1, st2)"
      by (auto split: option.splits)
    from H [OF step] have "same_but c ?st1 st2" by (rule extends_same_but)
    with u have u2: "same_but c st st2" by (rule same_but_trans)
    show ?thesis
    proof (cases r1)
      case None
      with Cons.prems True step u2 show ?thesis by simp
    next
      case (Some t)
      obtain w v1 es1 where t: "t = (w, v1, es1)" by (cases t)
      with Cons.prems True step Some have "array_elements_s f B c w ixs v1 es1 p st2 = Some (r, st')"
        by simp
      from u2 Cons.IH [OF this] show ?thesis by (rule same_but_trans)
    qed
  qed
qed

lemma TypeChecker_s_frame:
  "TypeChecker_s f B a d es p st = Some (r, st') \<Longrightarrow> extends st st'"
proof (induction f arbitrary: a d es p st r st')
  case 0
  then show ?case by simp
next
  case (Suc f)
  note H = Suc.IH
  show ?case
  proof (cases "lookup st a")
    case None
    with Suc.prems show ?thesis by simp
  next
    case (Some obj)
    show ?thesis
    proof (cases obj)
      case (OArray n ea opt)
      show ?thesis
      proof (cases "array_value B n d es p")
        case (Inl r1)
        with Suc.prems Some OArray show ?thesis by simp
      next
        case (Inr b)
        obtain v d1 where b: "b = (v, d1)" by (cases b)
        show ?thesis
        proof (cases "lookup st ea")
          case None
          with Suc.prems Some OArray Inr b show ?thesis by simp
        next
          case (Some el)
          with Suc.prems \<open>lookup st a = Some obj\<close> OArray Inr b
          have "write_back n d1
              (array_elements_s f B (length st) True [0..<length (elements v)] v es
                 (if p \<noteq> [] then p @ ''.'' @ n @ ''['' else n @ ''['') (st @ [el])) = Some (r, st')"
            by (simp add: clone_def)
          then obtain r1 where
            "array_elements_s f B (length st) True [0..<length (elements v)] v es
                 (if p \<noteq> [] then p @ ''.'' @ n @ ''['' else n @ ''['') (st @ [el]) = Some (r1, st')"
            by (auto dest: write_back_store)
          from array_elements_s_frame [OF H this] show ?thesis by (rule same_but_clone)
        qed
      qed
    next
      case (OObject n fas opt)
      show ?thesis
      proof (cases "object_value B n d es p")
        case (Inl r1)
        with Suc.prems Some OObject show ?thesis by simp
      next
        case (Inr b)
        obtain v d1 where b: "b = (v, d1)" by (cases b)
        with Suc.prems Some OObject Inr
        have "write_back n d1 (isValid_seq_s f B True fas v es (error_path p n) st) = Some (r, st')"
          by simp
        then obtain r1 where
          "isValid_seq_s f B True fas v es (error_path p n) st = Some (r1, st')"
          by (auto dest: write_back_store)
        from isValid_seq_s_frame [OF H this] show ?thesis .
      qed
    qed (use Suc.prems Some in simp_all)
  qed
qed

lemma oset_name_twice [simp]: "oset_name k (oset_name k' obj) = oset_name k obj"
  by (cases obj) simp_all

lemma is_oleaf_oset_name [simp]: "is_oleaf (oset_name k obj) = is_oleaf obj"
  by (cases obj) simp_all

lemma TypeChecker_s_leaf:
  "lookup st c = Some obj \<Longrightarrow> is_oleaf obj \<Longrightarrow> TypeChecker_s f B c v es p st = Some (r, st') \<Longrightarrow>
   st' = st"
  by (cases f; cases obj) auto

lemma array_elements_s_leaf:
  "array_elements_s f B c valid ixs v es p st = Some (r, st') \<Longrightarrow> c < length st \<Longrightarrow>
   is_oleaf (st ! c) \<Longrightarrow>
   (ixs = [] \<longrightarrow> st' = st) \<and>
   (ixs \<noteq> [] \<longrightarrow>
      (\<exists>k\<in>set ixs. st' = st[c := oset_name (show_nat k) (st ! c)]) \<and>
      (r \<noteq> None \<longrightarrow> st' = st[c := oset_name (show_nat (last ixs)) (st ! c)]))"
proof (induction ixs arbitrary: valid v es st)
  case Nil
  then show ?case by simp
next
  case (Cons i ixs)
  let ?st1 = "st[c := oset_name (show_nat i) (st ! c)]"
  from Cons.prems(2,3) have c1: "c < length ?st1" "is_oleaf (?st1 ! c)"
    and l1: "lookup ?st1 c = Some (oset_name (show_nat i) (st ! c))"
    by (simp_all add: lookup_def)
  have upd: "?st1[c := oset_name k (?st1 ! c)] = st[c := oset_name k (st ! c)]" for k
    using Cons.prems(2) by simp
  have rest: "(ixs = [] \<longrightarrow> st' = ?st1) \<and>
       (ixs \<noteq> [] \<longrightarrow>
          (\<exists>k\<in>set ixs. st' = st[c := oset_name (show_nat k) (st ! c)]) \<and>
          (r \<noteq> None \<longrightarrow> st' = st[c := oset_name (show_nat (last ixs)) (st ! c)]))"
    if "array_elements_s f B c w ixs v1 es1 p ?st1 = Some (r, st')" for w v1 es1
    using Cons.IH [OF that c1] by (simp only: upd)
  show ?case
  proof (cases valid)
    case False
    with Cons.prems(1) have "array_elements_s f B c valid ixs v es p ?st1 = Some (r, st')" by simp
    from rest [OF this] show ?thesis by auto
  next
    case True
    with Cons.prems(1) obtain r1 st2 where
      step: "TypeChecker_s f B c v es p ?st1 = Some (r1, st2)"
      by (auto split: option.splits)
    from TypeChecker_s_leaf [OF l1 _ step] Cons.prems(3) have st2: "st2 = ?st1" by simp
    show ?thesis
    proof (cases r1)
      case None
      with Cons.prems(1) True step st2 show ?thesis by auto
    next
      case (Some t)
      obtain w v1 es1 where t: "t = (w, v1, es1)" by (cases t)
      with Cons.prems(1) True step Some st2
      have "array_elements_s f B c w ixs v1 es1 p ?st1 = Some (r, st')" by simp
      from rest [OF this] show ?thesis by auto
    qed
  qed
qed

subsection \<open>A check depends on its field alone\<close>

text \<open>
  A checker reads the bag at the name of its schema and writes it there: on two bags that
  hold the same value under that name it gives the same verdict and the same errors, and
  leaves the same value.
\<close>

lemma NumberTypeChecker_local:
  assumes "NumberTypeChecker B s d es p = Some (v, d', es')" and "get (sname s) d1 = get (sname s) d"
  shows "(d' = d \<and> NumberTypeChecker B s d1 es p = Some (v, d1, es')) \<or>
   (\<exists>y. set_property (sname s) y d = Some d' \<and>
      (\<forall>d1'. set_property (sname s) y d1 = Some d1' \<longrightarrow>
         NumberTypeChecker B s d1 es p = Some (v, d1', es')))"
proof -
  from assms(1) obtain x where x: "get (sname s) d = Some x"
    by (auto simp: NumberTypeChecker_def split: Option.bind_splits)
  with assms(2) have x1: "get (sname s) d1 = Some x" by simp
  show ?thesis
  proof (cases v)
    case False
    with assms(1) x have "d' = d"
      by (auto simp: NumberTypeChecker_def Let_def split: if_splits Option.bind_splits)
    moreover from False assms(1) x x1 have "NumberTypeChecker B s d1 es p = Some (v, d1, es')"
      by (auto simp: NumberTypeChecker_def Let_def split: if_splits Option.bind_splits)
    ultimately show ?thesis by simp
  next
    case True
    define y where "y = Num (if stype s = ''int'' then parseInt B x else parseFloat B x)"
    from True assms(1) x have "set_property (sname s) y d = Some d'"
      by (auto simp: NumberTypeChecker_def Let_def y_def split: if_splits Option.bind_splits)
    moreover have "NumberTypeChecker B s d1 es p = Some (v, d1', es')"
      if "set_property (sname s) y d1 = Some d1'" for d1'
      using True assms(1) x x1 that
      by (auto simp: NumberTypeChecker_def Let_def y_def split: if_splits Option.bind_splits)
    ultimately show ?thesis by blast
  qed
qed

lemma TypeChecker_string_local:
  assumes "TypeChecker_string B s d es p = Some (v, d', es')" and "get (sname s) d1 = get (sname s) d"
  shows "(d' = d \<and> TypeChecker_string B s d1 es p = Some (v, d1, es')) \<or>
   (\<exists>y. set_property (sname s) y d = Some d' \<and>
      (\<forall>d1'. set_property (sname s) y d1 = Some d1' \<longrightarrow>
         TypeChecker_string B s d1 es p = Some (v, d1', es')))"
proof -
  from assms(1) obtain x where x: "get (sname s) d = Some x"
    by (auto simp: TypeChecker_string_def split: Option.bind_splits)
  with assms(2) have x1: "get (sname s) d1 = Some x" by simp
  show ?thesis
  proof (cases v)
    case False
    with assms(1) x have "d' = d"
      by (auto simp: TypeChecker_string_def Let_def split: if_splits Option.bind_splits)
    moreover from False assms(1) x x1 have "TypeChecker_string B s d1 es p = Some (v, d1, es')"
      by (auto simp: TypeChecker_string_def Let_def split: if_splits Option.bind_splits)
    ultimately show ?thesis by simp
  next
    case True
    define y where "y = of_value (case x of Str t \<Rightarrow> Some t | _ \<Rightarrow> JSON_stringify B x)"
    from True assms(1) x have "set_property (sname s) y d = Some d'"
      by (auto simp: TypeChecker_string_def Let_def y_def split: if_splits Option.bind_splits)
    moreover have "TypeChecker_string B s d1 es p = Some (v, d1', es')"
      if "set_property (sname s) y d1 = Some d1'" for d1'
      using True assms(1) x x1 that
      by (auto simp: TypeChecker_string_def Let_def y_def split: if_splits Option.bind_splits)
    ultimately show ?thesis by blast
  qed
qed

lemma TypeChecker_boolean_local:
  assumes "TypeChecker_boolean s d es p = Some (v, d', es')" and "get (sname s) d1 = get (sname s) d"
  shows "(d' = d \<and> TypeChecker_boolean s d1 es p = Some (v, d1, es')) \<or>
   (\<exists>y. set_property (sname s) y d = Some d' \<and>
      (\<forall>d1'. set_property (sname s) y d1 = Some d1' \<longrightarrow>
         TypeChecker_boolean s d1 es p = Some (v, d1', es')))"
proof -
  from assms(1) obtain x where x: "get (sname s) d = Some x"
    by (auto simp: TypeChecker_boolean_def split: Option.bind_splits)
  with assms(2) have x1: "get (sname s) d1 = Some x" by simp
  show ?thesis
  proof (cases v)
    case False
    with assms(1) x have "d' = d"
      by (auto simp: TypeChecker_boolean_def Let_def split: if_splits Option.bind_splits)
    moreover from False assms(1) x x1 have "TypeChecker_boolean s d1 es p = Some (v, d1, es')"
      by (auto simp: TypeChecker_boolean_def Let_def split: if_splits Option.bind_splits)
    ultimately show ?thesis by simp
  next
    case True
    define y where "y = (if x = Str ''true'' \<or> x = Str ''1'' then Bool True else x)"
    from True assms(1) x have "set_property (sname s) y d = Some d'"
      by (auto simp: TypeChecker_boolean_def Let_def y_def split: if_splits Option.bind_splits)
    moreover have "TypeChecker_boolean s d1 es p = Some (v, d1', es')"
      if "set_property (sname s) y d1 = Some d1'" for d1'
      using True assms(1) x x1 that
      by (auto simp: TypeChecker_boolean_def Let_def y_def split: if_splits Option.bind_splits)
    ultimately show ?thesis by blast
  qed
qed

lemma TypeChecker_enum_local:
  assumes "TypeChecker_enum B s d es p = Some (v, d', es')" and "get (sname s) d1 = get (sname s) d"
  shows "d' = d \<and> TypeChecker_enum B s d1 es p = Some (v, d1, es')"
proof -
  from assms(1) obtain x where x: "get (sname s) d = Some x"
    by (auto simp: TypeChecker_enum_def split: Option.bind_splits)
  with assms(2) have x1: "get (sname s) d1 = Some x" by simp
  from assms(1) x have "d' = d"
    by (auto simp: TypeChecker_enum_def Let_def split: if_splits)
  moreover from assms(1) x x1 have "TypeChecker_enum B s d1 es p = Some (v, d1, es')"
    by (auto simp: TypeChecker_enum_def Let_def split: if_splits)
  ultimately show ?thesis by simp
qed

lemma TypeChecker_local:
  assumes "TypeChecker B s d es p = Some (v, d', es')"
    and "has_property (sname s) d = Some True" and "has_property (sname s) d1 = Some True"
    and "get (sname s) d1 = get (sname s) d"
  shows "\<exists>d1'. TypeChecker B s d1 es p = Some (v, d1', es') \<and> written (sname s) d1 d1' \<and>
           get (sname s) d1' = get (sname s) d'"
proof -
  have leaf: ?thesis
    if "(d' = d \<and> TypeChecker B s d1 es p = Some (v, d1, es')) \<or>
        (\<exists>y. set_property (sname s) y d = Some d' \<and>
        (\<forall>d1'. set_property (sname s) y d1 = Some d1' \<longrightarrow>
           TypeChecker B s d1 es p = Some (v, d1', es')))"
    using that
  proof (elim disjE conjE exE)
    assume "d' = d" "TypeChecker B s d1 es p = Some (v, d1, es')"
    with assms(4) show ?thesis by auto
  next
    fix y
    assume y: "set_property (sname s) y d = Some d'"
      and run: "\<forall>d1'. set_property (sname s) y d1 = Some d1' \<longrightarrow>
           TypeChecker B s d1 es p = Some (v, d1', es')"
    from set_property_present [OF assms(3)] obtain d1' where
      s1: "set_property (sname s) y d1 = Some d1'"
      by blast
    from get_set_property [OF assms(3) s1] get_set_property [OF assms(2) y]
    have "get (sname s) d1' = get (sname s) d'" by simp
    with run s1 written_set [OF assms(3) s1] show ?thesis by blast
  qed
  show ?thesis
  proof (cases s)
    case (NumericSchema n t mn mx opt)
    with assms(1) have "NumberTypeChecker B s d es p = Some (v, d', es')" by simp
    from NumberTypeChecker_local [OF this assms(4)] NumericSchema show ?thesis
      by (intro leaf) simp
  next
    case (StringSchema n l mn mx opt)
    with assms(1) have "TypeChecker_string B s d es p = Some (v, d', es')" by simp
    from TypeChecker_string_local [OF this assms(4)] StringSchema show ?thesis
      by (intro leaf) simp
  next
    case (BooleanSchema n a opt)
    with assms(1) have "TypeChecker_boolean s d es p = Some (v, d', es')" by simp
    from TypeChecker_boolean_local [OF this assms(4)] BooleanSchema show ?thesis
      by (intro leaf) simp
  next
    case (EnumSchema n syms opt)
    with assms(1) have "TypeChecker_enum B s d es p = Some (v, d', es')" by simp
    from TypeChecker_enum_local [OF this assms(4)] EnumSchema show ?thesis
      by (intro leaf) simp
  next
    case (ArraySchema n e opt)
    from assms(1) ArraySchema obtain raw where raw: "get n d = Some raw"
      by (auto split: Option.bind_splits)
    with assms(4) ArraySchema have raw1: "get n d1 = Some raw" by simp
    define x where "x = (if isArray raw then raw else parsed_or_raw B raw)"
    define q where "q = (if p \<noteq> [] then p @ ''.'' @ n @ ''['' else n @ ''['')"
    show ?thesis
    proof (cases "isArray x")
      case False
      with assms(1) ArraySchema raw x_def have "v = False" "d' = d"
        "es' = pushError es p n ''array'' x ''array expected''"
        by (auto simp: Let_def)
      moreover from False raw1 x_def
      have "TypeChecker B (ArraySchema n e opt) d1 es p =
          Some (False, d1, pushError es p n ''array'' x ''array expected'')"
        by (auto simp: Let_def)
      ultimately show ?thesis using ArraySchema assms(4) by simp
    next
      case True
      with assms(1) ArraySchema raw x_def q_def obtain data1 value' where
        d1: "(if isArray raw then Some d else set_property n x d) = Some data1" and
        loop: "array_elements B e True [0..<length (elements x)] x es q = Some (v, value', es')" and
        w: "set_property n value' data1 = Some d'"
        by (auto simp: Let_def split: Option.bind_splits if_splits)
      from assms(2,3) ArraySchema have h: "has_property n d = Some True" "has_property n d1 = Some True"
        by simp_all
      from d1 h have wd: "written n d data1" by (auto simp: written_def split: if_splits)
      with h have h1: "has_property n data1 = Some True" by (simp add: written_has_property)
      from get_set_property [OF h1 w] have g': "get n d' = Some value'" by simp
      from set_property_present [OF h(2)] obtain e1 where
        e1: "(if isArray raw then Some d1 else set_property n x d1) = Some e1"
        by (cases "isArray raw") auto
      with h have we: "written n d1 e1" by (auto simp: written_def split: if_splits)
      with h have he: "has_property n e1 = Some True" by (simp add: written_has_property)
      from set_property_present [OF he] obtain d1' where w1: "set_property n value' e1 = Some d1'"
        by blast
      from written_trans [OF we written_set [OF he w1]] have "written n d1 d1'" .
      moreover from get_set_property [OF he w1] g' have "get n d1' = get n d'" by simp
      moreover from raw1 x_def True e1 loop w1 q_def
      have "TypeChecker B (ArraySchema n e opt) d1 es p = Some (v, d1', es')"
        by (auto simp: Let_def split: if_splits)
      ultimately show ?thesis using ArraySchema by simp
    qed
  next
    case (ObjectSchema n fs opt)
    from assms(1) ObjectSchema obtain raw where raw: "get n d = Some raw"
      by (auto split: Option.bind_splits)
    with assms(4) ObjectSchema have raw1: "get n d1 = Some raw" by simp
    define x where "x = (if typeof raw = ''object'' then raw else parsed_or_raw B raw)"
    show ?thesis
    proof (cases "typeof x = ''object''")
      case False
      with assms(1) ObjectSchema raw x_def have "v = False" "d' = d"
        "es' = pushError es p n ''object'' x ''object expected''"
        by (auto simp: Let_def)
      moreover from False raw1 x_def
      have "TypeChecker B (ObjectSchema n fs opt) d1 es p =
          Some (False, d1, pushError es p n ''object'' x ''object expected'')"
        by (auto simp: Let_def)
      ultimately show ?thesis using ObjectSchema assms(4) by simp
    next
      case True
      with assms(1) ObjectSchema raw x_def obtain data1 value' where
        d1: "(if typeof raw = ''object'' then Some d else set_property n x d) = Some data1" and
        loop: "isValid_seq B True fs x es (error_path p n) = Some (v, value', es')" and
        w: "set_property n value' data1 = Some d'"
        by (auto simp: Let_def split: Option.bind_splits if_splits)
      from assms(2,3) ObjectSchema have h: "has_property n d = Some True" "has_property n d1 = Some True"
        by simp_all
      from d1 h have wd: "written n d data1" by (auto simp: written_def split: if_splits)
      with h have h1: "has_property n data1 = Some True" by (simp add: written_has_property)
      from get_set_property [OF h1 w] have g': "get n d' = Some value'" by simp
      from set_property_present [OF h(2)] obtain e1 where
        e1: "(if typeof raw = ''object'' then Some d1 else set_property n x d1) = Some e1"
        by (cases "typeof raw = ''object''") auto
      with h have we: "written n d1 e1" by (auto simp: written_def split: if_splits)
      with h have he: "has_property n e1 = Some True" by (simp add: written_has_property)
      from set_property_present [OF he] obtain d1' where w1: "set_property n value' e1 = Some d1'"
        by blast
      from written_trans [OF we written_set [OF he w1]] have "written n d1 d1'" .
      moreover from get_set_property [OF he w1] g' have "get n d1' = get n d'" by simp
      moreover from raw1 x_def True e1 loop w1
      have "TypeChecker B (ObjectSchema n fs opt) d1 es p = Some (v, d1', es')"
        by (auto simp: Let_def split: if_splits)
      ultimately show ?thesis using ObjectSchema by simp
    qed
  qed
qed

lemma isValid_local:
  assumes "isValid B s d es p = Some (v, d', es')"
    and "has_property (sname s) d1 = has_property (sname s) d"
    and "get (sname s) d1 = get (sname s) d"
  shows "\<exists>d1'. isValid B s d1 es p = Some (v, d1', es') \<and> written (sname s) d1 d1' \<and>
           get (sname s) d1' = get (sname s) d'"
proof -
  from assms(1) obtain b where b: "has_property (sname s) d = Some b"
    by (auto simp: isValid.simps split: Option.bind_splits)
  then obtain w where w: "get (sname s) d = Some w" by (auto dest: has_property_get_Some)
  show ?thesis
  proof (cases "b \<and> w \<noteq> Null \<and> w \<noteq> Undefined")
    case True
    with assms(1) b w have tc: "TypeChecker B s d es p = Some (v, d', es')"
      by (simp add: isValid.simps)
    from True b have h: "has_property (sname s) d = Some True" by simp
    with assms(2) have h1: "has_property (sname s) d1 = Some True" by simp
    from TypeChecker_local [OF tc h h1 assms(3)] obtain d1' where
      "TypeChecker B s d1 es p = Some (v, d1', es')" "written (sname s) d1 d1'"
      "get (sname s) d1' = get (sname s) d'"
      by blast
    with h1 assms(3) w True show ?thesis by (auto simp: isValid.simps)
  next
    case False
    with assms(1) b w have "d' = d" and
      r: "(v, es') = (if optional s = Some True then (True, es)
            else (False, pushError es p (sname s) (stype s) w ''not found''))"
      by (auto simp: isValid.simps split: if_splits)
    moreover from False assms(2,3) b w r
    have "isValid B s d1 es p = Some (v, d1, es')"
      by (auto simp: isValid.simps split: if_splits)
    ultimately show ?thesis using assms(3) by auto
  qed
qed

subsection \<open>The first failure of a loop\<close>

lemma isValid_seq_split:
  "isValid_seq B True ss d es p = Some (False, d', es') \<Longrightarrow>
   \<exists>pre f post d1. ss = pre @ f # post \<and> isValid_seq B True pre d es p = Some (True, d1, es) \<and>
     isValid B f d1 es p = Some (False, d', es')"
proof (induction ss arbitrary: d)
  case Nil
  then show ?case by simp
next
  case (Cons x xs)
  from Cons.prems obtain v dx esx where
    step: "isValid B x d es p = Some (v, dx, esx)" and
    more: "isValid_seq B v xs dx esx p = Some (False, d', es')"
    by (auto split: Option.bind_splits)
  show ?case
  proof (cases v)
    case False
    with step more have "x # xs = [] @ x # xs" "isValid_seq B True [] d es p = Some (True, d, es)"
      "isValid B x d es p = Some (False, d', es')"
      by simp_all
    then show ?thesis by blast
  next
    case True
    with outcomes(1) [OF step] have esx: "esx = es" by (simp add: single_outcome_def)
    from Cons.IH [of dx] more True esx obtain pre f post d1 where
      "xs = pre @ f # post" "isValid_seq B True pre dx es p = Some (True, d1, es)"
      "isValid B f d1 es p = Some (False, d', es')"
      by auto
    with step True esx have "x # xs = (x # pre) @ f # post"
      "isValid_seq B True (x # pre) d es p = Some (True, d1, es)"
      "isValid B f d1 es p = Some (False, d', es')"
      by simp_all
    then show ?thesis by blast
  qed
qed

lemma isValid_seq_independent:
  assumes "distinct (map sname pre)"
    and "\<forall>x\<in>set pre. \<exists>dx. isValid B x d es p = Some (True, dx, es)"
    and "\<forall>x\<in>set pre. has_property (sname x) d1 = has_property (sname x) d \<and>
           get (sname x) d1 = get (sname x) d"
  shows "\<exists>d2. isValid_seq B True pre d1 es p = Some (True, d2, es) \<and>
     (\<forall>k. k \<notin> sname ` set pre \<longrightarrow> get k d2 = get k d1) \<and>
     (\<forall>k. has_property k d2 = has_property k d1) \<and>
     (\<forall>x\<in>set pre. \<forall>dx. isValid B x d es p = Some (True, dx, es) \<longrightarrow>
        get (sname x) d2 = get (sname x) dx)"
  using assms
proof (induction pre arbitrary: d1)
  case Nil
  then show ?case by simp
next
  case (Cons x pre)
  from Cons.prems(2) obtain dx where dx: "isValid B x d es p = Some (True, dx, es)" by auto
  from Cons.prems(3) have ag: "has_property (sname x) d1 = has_property (sname x) d"
    "get (sname x) d1 = get (sname x) d"
    by simp_all
  from isValid_local [OF dx ag] obtain d1' where
    run: "isValid B x d1 es p = Some (True, d1', es)" and wr: "written (sname x) d1 d1'" and
    gx: "get (sname x) d1' = get (sname x) dx"
    by blast
  from Cons.prems(1) have notin: "sname x \<notin> sname ` set pre" and dist: "distinct (map sname pre)"
    by auto
  have "\<forall>y\<in>set pre. has_property (sname y) d1' = has_property (sname y) d \<and>
           get (sname y) d1' = get (sname y) d"
  proof
    fix y assume y: "y \<in> set pre"
    with notin have "sname y \<noteq> sname x" by (metis imageI)
    from written_other [OF wr this] written_has_property [OF wr, of "sname y"] Cons.prems(3) y
    show "has_property (sname y) d1' = has_property (sname y) d \<and>
           get (sname y) d1' = get (sname y) d"
      by simp
  qed
  from Cons.IH [OF dist _ this] Cons.prems(2) obtain d2 where
    rest: "isValid_seq B True pre d1' es p = Some (True, d2, es)" and
    fr: "\<forall>k. k \<notin> sname ` set pre \<longrightarrow> get k d2 = get k d1'" and
    hp: "\<forall>k. has_property k d2 = has_property k d1'" and
    vals: "\<forall>y\<in>set pre. \<forall>dy. isValid B y d es p = Some (True, dy, es) \<longrightarrow>
        get (sname y) d2 = get (sname y) dy"
    by auto
  from run rest have "isValid_seq B True (x # pre) d1 es p = Some (True, d2, es)" by simp
  moreover have "\<forall>k. k \<notin> sname ` set (x # pre) \<longrightarrow> get k d2 = get k d1"
    using fr written_other [OF wr] by auto
  moreover have "\<forall>k. has_property k d2 = has_property k d1"
    using hp written_has_property [OF wr] by auto
  moreover have "\<forall>y\<in>set (x # pre). \<forall>dy. isValid B y d es p = Some (True, dy, es) \<longrightarrow>
        get (sname y) d2 = get (sname y) dy"
    using vals fr notin gx dx by auto
  ultimately show ?case by blast
qed

lemma written_index:
  assumes "written (show_nat k) (Arr zs) a1" and "k < length zs"
  shows "\<exists>c. a1 = Arr (zs[k := c]) \<and> get (show_nat k) a1 = Some c"
proof (cases "a1 = Arr zs")
  case True
  with assms(2) have "a1 = Arr (zs[k := zs ! k])" "get (show_nat k) a1 = Some (zs ! k)"
    by (simp_all add: index_of_show_nat)
  then show ?thesis by blast
next
  case False
  with assms(1) obtain y where "set_property (show_nat k) y (Arr zs) = Some a1"
    by (auto simp: written_def)
  with assms(2) have "a1 = Arr (zs[k := y])" by (simp add: read_show_nat Let_def)
  with assms(2) show ?thesis by (simp add: index_of_show_nat)
qed

lemma array_elements_from:
  assumes "array_elements B e True [k..<length xs] (Arr zs) es q = Some (v, a', es')"
    and "length zs = length xs" and "\<forall>j. k \<le> j \<and> j < length xs \<longrightarrow> zs ! j = xs ! j"
  shows "\<exists>ys. a' = Arr ys \<and> length ys = length xs \<and> (\<forall>j<k. ys ! j = zs ! j) \<and>
    (if v then es' = es \<and>
       (\<forall>j. k \<le> j \<and> j < length xs \<longrightarrow>
          TypeChecker B (set_name (show_nat j) e) (Arr xs) es q =
            Some (True, Arr (xs[j := ys ! j]), es))
     else \<exists>i. k \<le> i \<and> i < length xs \<and>
       (\<forall>j. k \<le> j \<and> j < i \<longrightarrow>
          TypeChecker B (set_name (show_nat j) e) (Arr xs) es q =
            Some (True, Arr (xs[j := ys ! j]), es)) \<and>
       TypeChecker B (set_name (show_nat i) e) (Arr xs) es q =
         Some (False, Arr (xs[i := ys ! i]), es') \<and>
       (\<forall>j. i < j \<and> j < length xs \<longrightarrow> ys ! j = xs ! j))"
  using assms
proof (induction "length xs - k" arbitrary: k zs)
  case 0
  then have "[k..<length xs] = []" by simp
  with "0.prems" show ?case by auto
next
  case (Suc m)
  then have k: "k < length xs" and upt: "[k..<length xs] = k # [Suc k..<length xs]"
    by (simp_all add: upt_conv_Cons)
  let ?s = "set_name (show_nat k) e"
  from Suc.prems(1) upt obtain v1 a1 es1 where
    step: "TypeChecker B ?s (Arr zs) es q = Some (v1, a1, es1)" and
    more: "array_elements B e v1 [Suc k..<length xs] a1 es1 q = Some (v, a', es')"
    by (auto split: Option.bind_splits)
  from k Suc.prems(2) have hz: "has_property (sname ?s) (Arr zs) = Some True"
    and hx: "has_property (sname ?s) (Arr xs) = Some True"
    by (simp_all add: index_of_show_nat)
  from k Suc.prems(2,3) have gz: "get (sname ?s) (Arr xs) = get (sname ?s) (Arr zs)"
    by (simp add: index_of_show_nat)
  from TypeChecker_local [OF step hz hx gz] obtain b1 where
    own: "TypeChecker B ?s (Arr xs) es q = Some (v1, b1, es1)" and
    wb: "written (show_nat k) (Arr xs) b1" and gb: "get (show_nat k) b1 = get (show_nat k) a1"
    by auto
  from TypeChecker_written [OF hz step] have wa: "written (show_nat k) (Arr zs) a1" by simp
  from written_index [OF wa] k Suc.prems(2) obtain c where
    a1: "a1 = Arr (zs[k := c])" and gc: "get (show_nat k) a1 = Some c"
    by auto
  from written_index [OF wb k] gb gc have b1: "b1 = Arr (xs[k := c])" by auto
  show ?case
  proof (cases v1)
    case False
    with more have "v = False" "a' = a1" "es' = es1" by simp_all
    with a1 b1 own False k Suc.prems(2,3) show ?thesis
      by (intro exI [of _ "zs[k := c]"]) auto
  next
    case True
    with outcomes(3) [OF step] have es1: "es1 = es" by (simp add: single_outcome_def)
    from Suc.hyps(2) have m: "m = length xs - Suc k" by simp
    from Suc.prems(2,3) have ag: "length (zs[k := c]) = length xs"
      "\<forall>j. Suc k \<le> j \<and> j < length xs \<longrightarrow> zs[k := c] ! j = xs ! j"
      by simp_all
    from more True es1 a1 have
      "array_elements B e True [Suc k..<length xs] (Arr (zs[k := c])) es q = Some (v, a', es')"
      by simp
    from Suc.hyps(1) [OF m this ag] obtain ys where
      ys: "a' = Arr ys" "length ys = length xs" "\<forall>j<Suc k. ys ! j = zs[k := c] ! j" and
      rest: "if v then es' = es \<and>
       (\<forall>j. Suc k \<le> j \<and> j < length xs \<longrightarrow>
          TypeChecker B (set_name (show_nat j) e) (Arr xs) es q =
            Some (True, Arr (xs[j := ys ! j]), es))
     else \<exists>i. Suc k \<le> i \<and> i < length xs \<and>
       (\<forall>j. Suc k \<le> j \<and> j < i \<longrightarrow>
          TypeChecker B (set_name (show_nat j) e) (Arr xs) es q =
            Some (True, Arr (xs[j := ys ! j]), es)) \<and>
       TypeChecker B (set_name (show_nat i) e) (Arr xs) es q =
         Some (False, Arr (xs[i := ys ! i]), es') \<and>
       (\<forall>j. i < j \<and> j < length xs \<longrightarrow> ys ! j = xs ! j)"
      by blast
    from ys(3) k Suc.prems(2) have yk: "ys ! k = c" by simp
    with own True es1 b1 have ownk: "TypeChecker B (set_name (show_nat k) e) (Arr xs) es q =
        Some (True, Arr (xs[k := ys ! k]), es)"
      by simp
    have low: "\<forall>j<k. ys ! j = zs ! j" using ys(3) by simp
    show ?thesis
    proof (cases v)
      case True
      with rest have "es' = es" and
        all: "\<forall>j. Suc k \<le> j \<and> j < length xs \<longrightarrow>
          TypeChecker B (set_name (show_nat j) e) (Arr xs) es q =
            Some (True, Arr (xs[j := ys ! j]), es)"
        by simp_all
      have "\<forall>j. k \<le> j \<and> j < length xs \<longrightarrow>
          TypeChecker B (set_name (show_nat j) e) (Arr xs) es q =
            Some (True, Arr (xs[j := ys ! j]), es)"
      proof (intro allI impI)
        fix j assume j: "k \<le> j \<and> j < length xs"
        show "TypeChecker B (set_name (show_nat j) e) (Arr xs) es q =
            Some (True, Arr (xs[j := ys ! j]), es)"
        proof (cases "j = k")
          case True
          with ownk show ?thesis by simp
        next
          case False
          with j all show ?thesis by simp
        qed
      qed
      with True \<open>es' = es\<close> ys(1,2) low show ?thesis by simp
    next
      case False
      with rest obtain i where i: "Suc k \<le> i" "i < length xs" and
        before: "\<forall>j. Suc k \<le> j \<and> j < i \<longrightarrow>
          TypeChecker B (set_name (show_nat j) e) (Arr xs) es q =
            Some (True, Arr (xs[j := ys ! j]), es)" and
        fail: "TypeChecker B (set_name (show_nat i) e) (Arr xs) es q =
         Some (False, Arr (xs[i := ys ! i]), es')" and
        after: "\<forall>j. i < j \<and> j < length xs \<longrightarrow> ys ! j = xs ! j"
        by auto
      have "\<forall>j. k \<le> j \<and> j < i \<longrightarrow>
          TypeChecker B (set_name (show_nat j) e) (Arr xs) es q =
            Some (True, Arr (xs[j := ys ! j]), es)"
      proof (intro allI impI)
        fix j assume j: "k \<le> j \<and> j < i"
        show "TypeChecker B (set_name (show_nat j) e) (Arr xs) es q =
            Some (True, Arr (xs[j := ys ! j]), es)"
        proof (cases "j = k")
          case True
          with ownk show ?thesis by simp
        next
          case False
          with j before show ?thesis by simp
        qed
      qed
      moreover from i have "k \<le> i" by simp
      ultimately have "\<exists>i. k \<le> i \<and> i < length xs \<and>
       (\<forall>j. k \<le> j \<and> j < i \<longrightarrow>
          TypeChecker B (set_name (show_nat j) e) (Arr xs) es q =
            Some (True, Arr (xs[j := ys ! j]), es)) \<and>
       TypeChecker B (set_name (show_nat i) e) (Arr xs) es q =
         Some (False, Arr (xs[i := ys ! i]), es') \<and>
       (\<forall>j. i < j \<and> j < length xs \<longrightarrow> ys ! j = xs ! j)"
        using i(2) fail after by blast
      with False ys(1,2) low show ?thesis by simp
    qed
  qed
qed

lemma array_elements_own:
  assumes "array_elements B e True [0..<length xs] (Arr xs) es q = Some (v, a', es')"
  shows "\<exists>ys. a' = Arr ys \<and> length ys = length xs \<and>
    (if v then es' = es \<and>
       (\<forall>j<length xs.
          TypeChecker B (set_name (show_nat j) e) (Arr xs) es q =
            Some (True, Arr (xs[j := ys ! j]), es))
     else \<exists>i<length xs.
       (\<forall>j<i. TypeChecker B (set_name (show_nat j) e) (Arr xs) es q =
            Some (True, Arr (xs[j := ys ! j]), es)) \<and>
       TypeChecker B (set_name (show_nat i) e) (Arr xs) es q =
         Some (False, Arr (xs[i := ys ! i]), es') \<and>
       (\<forall>j. i < j \<and> j < length xs \<longrightarrow> ys ! j = xs ! j))"
  using array_elements_from [OF assms] by (cases v) auto

subsection \<open>What the host reads back\<close>






subsection \<open>The store model and the value model\<close>

lemma lookup_extends: "extends st st' \<Longrightarrow> lookup st a = Some obj \<Longrightarrow> lookup st' a = Some obj"
  by (auto simp: extends_nth lookup_def split: if_splits)

lemma schema_at_extends:
  "schema_at m st a = Some s \<Longrightarrow> extends st st' \<Longrightarrow> schema_at m st' a = Some s"
  "schemas_at m st as = Some ss \<Longrightarrow> extends st st' \<Longrightarrow> schemas_at m st' as = Some ss"
proof (induction m st a and m st as arbitrary: s and ss rule: schema_at_schemas_at.induct)
  case (1 st a)
  then show ?case by simp
next
  case (2 f st a)
  from "2.prems"(1) obtain obj where obj: "lookup st a = Some obj"
    by (auto split: option.splits)
  from lookup_extends [OF "2.prems"(2) obj] have obj': "lookup st' a = Some obj" .
  show ?case
  proof (cases obj)
    case (OArray n ea opt)
    with "2.prems"(1) obj obtain e where e: "schema_at f st ea = Some e" "s = ArraySchema n e opt"
      by auto
    from "2.IH"(1) [OF obj OArray e(1) "2.prems"(2)] e(2) obj' OArray show ?thesis by simp
  next
    case (OObject n fas opt)
    with "2.prems"(1) obj obtain fs where fs: "schemas_at f st fas = Some fs"
      "s = ObjectSchema n fs opt"
      by auto
    from "2.IH"(2) [OF obj OObject fs(1) "2.prems"(2)] fs(2) obj' OObject show ?thesis by simp
  qed (use "2.prems"(1) obj obj' in auto)
next
  case (3 f st)
  then show ?case by simp
next
  case (4 f st a as)
  from "4.prems"(1) obtain s' ss' where
    s': "schema_at f st a = Some s'" and ss': "schemas_at f st as = Some ss'" and
    ss: "ss = s' # ss'"
    by (auto split: option.splits)
  from "4.IH"(1) [OF s' "4.prems"(2)] "4.IH"(2) [OF s' ss' "4.prems"(2)] ss
  show ?case by simp
qed

lemma TypeChecker_array_unfold:
  "TypeChecker B (ArraySchema n e opt) d es p =
     (case array_value B n d es p of
        Inl r \<Rightarrow> r
      | Inr (value, data1) \<Rightarrow>
          (case array_elements B e True [0..<length (elements value)] value es
                  (if p \<noteq> [] then p @ ''.'' @ n @ ''['' else n @ ''['') of
             None \<Rightarrow> None
           | Some (valid, value', errors') \<Rightarrow>
               map_option (\<lambda>data'. (valid, data', errors')) (set_property n value' data1)))"
  by (cases "get n d")
    (auto simp: array_value_def Let_def split: option.splits Option.bind_splits)

lemma TypeChecker_object_unfold:
  "TypeChecker B (ObjectSchema n fs opt) d es p =
     (case object_value B n d es p of
        Inl r \<Rightarrow> r
      | Inr (value, data1) \<Rightarrow>
          (case isValid_seq B True fs value es (error_path p n) of
             None \<Rightarrow> None
           | Some (valid, value', errors') \<Rightarrow>
               map_option (\<lambda>data'. (valid, data', errors')) (set_property n value' data1)))"
  by (cases "get n d")
    (auto simp: object_value_def Let_def split: option.splits Option.bind_splits)

lemma write_back_Some:
  "write_back n d1 (Some (r, st')) =
     Some ((case r of
              None \<Rightarrow> None
            | Some (valid, value', errors') \<Rightarrow>
                map_option (\<lambda>data'. (valid, data', errors')) (set_property n value' d1)), st')"
  by (auto simp: write_back_def split: option.splits)

lemma schema_at_top:
  "schema_at m st a = Some s \<Longrightarrow>
   \<exists>obj. lookup st a = Some obj \<and> oname obj = sname s \<and> ooptional obj = optional s \<and>
     otype obj = stype s"
  by (cases m) (auto split: option.splits sobj.splits)

lemma isValid_s_agrees:
  assumes "schema_at m st a = Some s"
    and "TypeChecker_s f B a d es p st = Some (TypeChecker B s d es p, st')"
  shows "\<exists>st''. isValid_s f B a d es p st = Some (isValid B s d es p, st'') \<and> extends st st''"
proof -
  from schema_at_top [OF assms(1)] obtain obj where
    obj: "lookup st a = Some obj" "oname obj = sname s" "ooptional obj = optional s"
      "otype obj = stype s"
    by blast
  from TypeChecker_s_frame [OF assms(2)] have e: "extends st st'" .
  show ?thesis
  proof (cases "has_property (sname s) d")
    case None
    with obj show ?thesis by (simp add: isValid_s.simps isValid.simps missing_outcome_def)
  next
    case (Some b)
    then obtain v where v: "get (sname s) d = Some v" by (auto dest: has_property_get_Some)
    with Some obj assms(2) e show ?thesis
      by (auto simp: isValid_s.simps isValid.simps missing_outcome_def)
  qed
qed

lemma schemas_at_Cons:
  "schemas_at m st (a # as) = Some ss \<Longrightarrow>
   \<exists>s ss'. schema_at m st a = Some s \<and> schemas_at m st as = Some ss' \<and> ss = s # ss'"
  by (auto split: option.splits)

lemma isValid_seq_s_agrees:
  assumes R: "\<And>s a d es p st m. schema_at m st a = Some s \<Longrightarrow> ssize s \<le> g \<Longrightarrow>
      \<exists>st'. TypeChecker_s g B a d es p st = Some (TypeChecker B s d es p, st')"
  shows "schemas_at m st as = Some ss \<Longrightarrow> \<forall>s\<in>set ss. ssize s \<le> g \<Longrightarrow>
    \<exists>st'. isValid_seq_s g B valid as d es p st = Some (isValid_seq B valid ss d es p, st')"
proof (induction as arbitrary: ss valid d es st)
  case Nil
  then show ?case by simp
next
  case (Cons a as)
  from schemas_at_Cons [OF Cons.prems(1)] obtain s ss' where
    s: "schema_at m st a = Some s" and ss': "schemas_at m st as = Some ss'" and ss: "ss = s # ss'"
    by blast
  show ?case
  proof (cases valid)
    case False
    with Cons.IH [OF ss', of False d es] Cons.prems(2) ss show ?thesis by simp
  next
    case True
    from Cons.prems(2) ss have sz: "ssize s \<le> g" "\<forall>s\<in>set ss'. ssize s \<le> g" by simp_all
    from R [OF s sz(1), of d es p] obtain st1 where
      "TypeChecker_s g B a d es p st = Some (TypeChecker B s d es p, st1)" by blast
    from isValid_s_agrees [OF s this] obtain st2 where
      step: "isValid_s g B a d es p st = Some (isValid B s d es p, st2)" and e: "extends st st2"
      by blast
    show ?thesis
    proof (cases "isValid B s d es p")
      case None
      with step True ss show ?thesis by simp
    next
      case (Some t)
      obtain v d1 es1 where t: "t = (v, d1, es1)" by (cases t)
      from schema_at_extends(2) [OF ss' e] have "schemas_at m st2 as = Some ss'" .
      from Cons.IH [OF this sz(2), of v d1 es1] step True ss Some t show ?thesis by simp
    qed
  qed
qed

lemma clone_represents:
  assumes "schema_at m st0 ea = Some e" and "lookup st0 ea = Some el" and "extends st0 st"
    and "lookup st c = Some (oset_name k el)"
  shows "schema_at m st c = Some (set_name k e)"
proof (cases m)
  case 0
  with assms(1) show ?thesis by simp
next
  case (Suc m')
  show ?thesis
  proof (cases el)
    case (OArray n ea' opt)
    with assms(1,2) Suc obtain e' where e': "schema_at m' st0 ea' = Some e'"
      "e = ArraySchema n e' opt"
      by auto
    from schema_at_extends(1) [OF e'(1) assms(3)] e'(2) assms(4) OArray Suc show ?thesis by simp
  next
    case (OObject n fas opt)
    with assms(1,2) Suc obtain fs where fs: "schemas_at m' st0 fas = Some fs"
      "e = ObjectSchema n fs opt"
      by auto
    from schema_at_extends(2) [OF fs(1) assms(3)] fs(2) assms(4) OObject Suc show ?thesis by simp
  qed (use assms(1,2,4) Suc in auto)
qed

lemma extends_update: "extends st0 st \<Longrightarrow> length st0 \<le> c \<Longrightarrow> extends st0 (st[c := x])"
  by (auto simp: extends_nth)

lemma array_elements_s_agrees:
  assumes R: "\<And>s a d es p st m. schema_at m st a = Some s \<Longrightarrow> ssize s \<le> g \<Longrightarrow>
      \<exists>st'. TypeChecker_s g B a d es p st = Some (TypeChecker B s d es p, st')"
    and base: "schema_at m st0 ea = Some e" "lookup st0 ea = Some el" "ssize e \<le> g"
      "length st0 \<le> c"
  shows "extends st0 st \<Longrightarrow> c < length st \<Longrightarrow> st ! c = oset_name k el \<Longrightarrow>
    \<exists>st'. array_elements_s g B c valid ixs v es p st = Some (array_elements B e valid ixs v es p, st')"
proof (induction ixs arbitrary: valid v es st k)
  case Nil
  then show ?case by simp
next
  case (Cons i ixs)
  let ?st1 = "st[c := oset_name (show_nat i) (st ! c)]"
  from Cons.prems base(4) have e1: "extends st0 ?st1" by (simp add: extends_update)
  from Cons.prems have c1: "c < length ?st1" and n1: "?st1 ! c = oset_name (show_nat i) el"
    by simp_all
  show ?case
  proof (cases valid)
    case False
    with Cons.IH [OF e1 c1 n1, of False v es] show ?thesis by simp
  next
    case True
    from c1 n1 have "lookup ?st1 c = Some (oset_name (show_nat i) el)" by (simp add: lookup_def)
    from clone_represents [OF base(1,2) e1 this]
    have rep: "schema_at m ?st1 c = Some (set_name (show_nat i) e)" .
    from R [OF rep, of v es p] base(3) obtain st2 where
      step: "TypeChecker_s g B c v es p ?st1 =
        Some (TypeChecker B (set_name (show_nat i) e) v es p, st2)"
      by auto
    from TypeChecker_s_frame [OF step] have e12: "extends ?st1 st2" .
    with e1 have e2: "extends st0 st2" by (rule extends_trans)
    from e12 c1 n1 have c2: "c < length st2" and n2: "st2 ! c = oset_name (show_nat i) el"
      by (auto simp: extends_nth)
    show ?thesis
    proof (cases "TypeChecker B (set_name (show_nat i) e) v es p")
      case None
      with step True show ?thesis by simp
    next
      case (Some t)
      obtain w v1 es1 where t: "t = (w, v1, es1)" by (cases t)
      from Cons.IH [OF e2 c2 n2, of w v1 es1] step True Some t show ?thesis by simp
    qed
  qed
qed

lemma TypeChecker_s_agrees:
  "schema_at m st a = Some s \<Longrightarrow> ssize s \<le> f \<Longrightarrow>
   \<exists>st'. TypeChecker_s f B a d es p st = Some (TypeChecker B s d es p, st')"
proof (induction f arbitrary: m st a s d es p)
  case 0
  then show ?case using ssize_pos [of s] by simp
next
  case (Suc g)
  note R = Suc.IH
  from Suc.prems(1) obtain m' where m: "m = Suc m'" by (cases m) simp_all
  from Suc.prems(1) m obtain obj where obj: "lookup st a = Some obj"
    by (auto split: option.splits)
  show ?case
  proof (cases obj)
    case (OArray n ea opt)
    with Suc.prems(1) m obj obtain e where e: "schema_at m' st ea = Some e"
      "s = ArraySchema n e opt"
      by auto
    from e(1) obtain el where el: "lookup st ea = Some el"
      by (cases m') (auto split: option.splits)
    from Suc.prems(2) e(2) have sz: "ssize e \<le> g" by simp
    show ?thesis
    proof (cases "array_value B n d es p")
      case (Inl r)
      with obj OArray e(2) show ?thesis by (simp add: TypeChecker_array_unfold del: TypeChecker.simps)
    next
      case (Inr b)
      obtain v d1 where b: "b = (v, d1)" by (cases b)
      let ?q = "if p \<noteq> [] then p @ ''.'' @ n @ ''['' else n @ ''[''"
      have "extends st (st @ [el])" by (simp add: extends_def)
      have pre: "length st \<le> length st" "length st < length (st @ [el])"
        "(st @ [el]) ! length st = oset_name (oname el) el"
        by (cases el; simp)+
      have "\<exists>st'. array_elements_s g B (length st) True [0..<length (elements v)] v es ?q
            (st @ [el]) =
          Some (array_elements B e True [0..<length (elements v)] v es ?q, st')"
        by (rule array_elements_s_agrees [where k = "oname el", OF _ e(1) el sz pre(1)
              \<open>extends st (st @ [el])\<close> pre(2,3)])
          (rule R; assumption)
      then obtain st' where
        "array_elements_s g B (length st) True [0..<length (elements v)] v es ?q (st @ [el]) =
          Some (array_elements B e True [0..<length (elements v)] v es ?q, st')"
        by blast
      with obj OArray e(2) Inr b el show ?thesis
        by (simp add: TypeChecker_array_unfold clone_def write_back_Some del: TypeChecker.simps)
    qed
  next
    case (OObject n fas opt)
    with Suc.prems(1) m obj obtain fs where fs: "schemas_at m' st fas = Some fs"
      "s = ObjectSchema n fs opt"
      by auto
    have sz: "\<forall>x\<in>set fs. ssize x \<le> g"
    proof
      fix x assume "x \<in> set fs"
      then have "ssize x \<in> set (map ssize fs)" by simp
      then have "ssize x \<le> sum_list (map ssize fs)" by (simp add: member_le_sum_list)
      with Suc.prems(2) fs(2) show "ssize x \<le> g" by simp
    qed
    show ?thesis
    proof (cases "object_value B n d es p")
      case (Inl r)
      with obj OObject fs(2) show ?thesis by (simp add: TypeChecker_object_unfold del: TypeChecker.simps)
    next
      case (Inr b)
      obtain v d1 where b: "b = (v, d1)" by (cases b)
      have "\<exists>st'. isValid_seq_s g B True fas v es (error_path p n) st =
          Some (isValid_seq B True fs v es (error_path p n), st')"
        by (rule isValid_seq_s_agrees [OF _ fs(1) sz]) (rule R; assumption)
      then obtain st' where
        "isValid_seq_s g B True fas v es (error_path p n) st =
          Some (isValid_seq B True fs v es (error_path p n), st')"
        by blast
      with obj OObject fs(2) Inr b show ?thesis
        by (simp add: TypeChecker_object_unfold write_back_Some del: TypeChecker.simps)
    qed
  qed (use Suc.prems(1) m obj in auto)
qed

section \<open>Error paths\<close>

text \<open>
  C7: the path of a field below a prefix is the field's name when the prefix is empty, the
  prefix, the name and a closing bracket when the prefix ends with an opening bracket, and
  the prefix, a dot and the name otherwise.  \<open>pushError\<close> names every error so: below
  any prefix \<open>p\<close>, the error of a failing field that has no sub-schemas or is missing is
  named by the path of that field below \<open>p\<close>.  The object checker extends the path so:
  when the checker of an object \<open>n\<close> below \<open>p\<close> fails at one of its fields, the fields
  before it having passed, and that field has no sub-schemas or is missing, the error
  is named by the path of the field below the path of \<open>n\<close> below \<open>p\<close>.  When the
  checker of an array \<open>n\<close> of elements without sub-schemas fails, the error is named by
  the prefix the checker hands to its elements, the index \<open>i\<close> of the first element
  that fails on its own, and a closing bracket.  So a failing field \<open>age\<close> without
  sub-schemas below a top-level object \<open>user\<close> is named \<open>user.age\<close>, and the failing
  element \<open>i\<close> of a top-level array \<open>ids\<close> is named \<open>ids[i]\<close>.
\<close>

theorem error_path_builder:
  "error_path [] seg = seg \<and>
   (pre \<noteq> [] \<and> last pre = CHR ''['' \<longrightarrow> error_path pre seg = pre @ seg @ '']'') \<and>
   (pre \<noteq> [] \<and> last pre \<noteq> CHR ''['' \<longrightarrow> error_path pre seg = pre @ ''.'' @ seg) \<and>
   ename (last (pushError es pre seg t x desc)) = error_path pre seg \<and>
   (isValid B f d es p = Some (False, d', es') \<and> (is_leaf f \<or> missing (field (sname f) d)) \<longrightarrow>
      map ename es' = map ename es @ [error_path p (sname f)]) \<and>
   (TypeChecker B (ObjectSchema n fs opt) d es p = Some (False, d', es') \<and> get n d = Some raw \<and>
    typeof (parsed_or_raw B raw) = ''object'' \<longrightarrow>
      (\<exists>before g behind o' o''. fs = before @ g # behind \<and>
         isValid_seq B True before (parsed_or_raw B raw) es (error_path p n) = Some (True, o', es) \<and>
         isValid B g o' es (error_path p n) = Some (False, o'', es') \<and>
         (is_leaf g \<or> missing (field (sname g) o') \<longrightarrow>
            map ename es' = map ename es @ [error_path (error_path p n) (sname g)]))) \<and>
   (TypeChecker B (ArraySchema n e opt) d es p = Some (False, d', es') \<and> get n d = Some raw \<and>
    parsed_or_raw B raw = Arr xs \<and> is_leaf e \<longrightarrow>
      (\<exists>i<length xs.
         (\<forall>j<i. \<exists>c. TypeChecker B (set_name (show_nat j) e) (Arr xs) es
                       (if p \<noteq> [] then p @ ''.'' @ n @ ''['' else n @ ''['') =
                     Some (True, Arr (xs[j := c]), es)) \<and>
         TypeChecker B (set_name (show_nat i) e) (Arr xs) es
             (if p \<noteq> [] then p @ ''.'' @ n @ ''['' else n @ ''['') =
           Some (False, Arr xs, es') \<and>
         map ename es' =
           map ename es @
             [(if p \<noteq> [] then p @ ''.'' @ n @ ''['' else n @ ''['') @ show_nat i @ '']''])) \<and>
   (is_leaf f \<and> sname f = ''age'' \<and>
    validate B [ObjectSchema ''user'' [f] opt] (Obj [(''user'', Obj kvs)]) = Some (False, d', es')
      \<longrightarrow> map ename es' = [''user.age'']) \<and>
   (is_leaf e \<and>
    validate B [ArraySchema ''ids'' e opt] (Obj [(''ids'', Arr xs)]) = Some (False, d', es')
      \<longrightarrow> (\<exists>i<length xs.
            (\<forall>j<i. \<exists>c. TypeChecker B (set_name (show_nat j) e) (Arr xs) [] ''ids['' =
                        Some (True, Arr (xs[j := c]), [])) \<and>
            TypeChecker B (set_name (show_nat i) e) (Arr xs) [] ''ids['' =
              Some (False, Arr xs, es') \<and>
            map ename es' = [''ids['' @ show_nat i @ '']'']))"
proof -
  have field_error: "map ename es' = map ename es @ [error_path p (sname f)]"
    if run: "isValid B f d es p = Some (False, d', es')"
      and kind: "is_leaf f \<or> missing (field (sname f) d)"
    for f d es p d' es'
  proof (cases "is_leaf f")
    case True
    with isValid_leaf_outcome [OF run] show ?thesis
      by (auto simp: leaf_outcome_def pushError_def)
  next
    case False
    with kind have "missing (field (sname f) d)" by simp
    with run show ?thesis
      by (auto simp: isValid.simps missing_def field_def pushError_def
          split: Option.bind_splits if_splits)
  qed
  have object: "\<exists>before g behind o' o''. fs = before @ g # behind \<and>
         isValid_seq B True before (parsed_or_raw B raw) es (error_path p n) = Some (True, o', es) \<and>
         isValid B g o' es (error_path p n) = Some (False, o'', es') \<and>
         (is_leaf g \<or> missing (field (sname g) o') \<longrightarrow>
            map ename es' = map ename es @ [error_path (error_path p n) (sname g)])"
    if tc: "TypeChecker B (ObjectSchema n fs opt) d es p = Some (False, d', es')"
      and raw: "get n d = Some raw" and shape: "typeof (parsed_or_raw B raw) = ''object''"
    for n fs opt d es p d' es' raw
  proof -
    have val: "(if typeof raw = ''object'' then raw else parsed_or_raw B raw) =
        parsed_or_raw B raw"
      by (cases raw) (auto simp: parsed_or_raw_def typeof_def)
    from tc raw val shape obtain o'' where
      "isValid_seq B True fs (parsed_or_raw B raw) es (error_path p n) = Some (False, o'', es')"
      by (auto simp: Let_def split: Option.bind_splits if_splits)
    from isValid_seq_split [OF this] obtain before g behind o' where
      split: "fs = before @ g # behind"
        "isValid_seq B True before (parsed_or_raw B raw) es (error_path p n) = Some (True, o', es)"
        "isValid B g o' es (error_path p n) = Some (False, o'', es')"
      by blast
    with field_error [OF split(3)] show ?thesis by blast
  qed
  have array: "\<exists>i<length xs.
         (\<forall>j<i. \<exists>c. TypeChecker B (set_name (show_nat j) e) (Arr xs) es
                       (if p \<noteq> [] then p @ ''.'' @ n @ ''['' else n @ ''['') =
                     Some (True, Arr (xs[j := c]), es)) \<and>
         TypeChecker B (set_name (show_nat i) e) (Arr xs) es
             (if p \<noteq> [] then p @ ''.'' @ n @ ''['' else n @ ''['') =
           Some (False, Arr xs, es') \<and>
         map ename es' =
           map ename es @
             [(if p \<noteq> [] then p @ ''.'' @ n @ ''['' else n @ ''['') @ show_nat i @ '']'']"
    if tc: "TypeChecker B (ArraySchema n e opt) d es p = Some (False, d', es')"
      and raw: "get n d = Some raw" and shape: "parsed_or_raw B raw = Arr xs" and leaf: "is_leaf e"
    for n e opt d es p d' es' raw xs
  proof -
    define q where "q = (if p \<noteq> [] then p @ ''.'' @ n @ ''['' else n @ ''['')"
    have val: "(if isArray raw then raw else parsed_or_raw B raw) = Arr xs"
      using shape by (cases raw) (auto simp: parsed_or_raw_def isArray_def)
    from tc raw val obtain a' where
      "array_elements B e True [0..<length xs] (Arr xs) es q = Some (False, a', es')"
      by (auto simp: Let_def isArray_def elements_def q_def split: Option.bind_splits if_splits)
    from array_elements_own [OF this] obtain ys i where
      i: "i < length xs" and
      before: "\<forall>j<i. TypeChecker B (set_name (show_nat j) e) (Arr xs) es q =
            Some (True, Arr (xs[j := ys ! j]), es)" and
      fail: "TypeChecker B (set_name (show_nat i) e) (Arr xs) es q =
         Some (False, Arr (xs[i := ys ! i]), es')"
      by auto
    from TypeChecker_leaf_outcome [OF fail] leaf obtain x desc where
      same: "Arr (xs[i := ys ! i]) = Arr xs" and
      err: "es' = pushError es q (show_nat i) (stype e) x desc"
      by (auto simp: leaf_outcome_def)
    have "q \<noteq> []" "last q = CHR ''[''" by (simp_all add: q_def)
    with err have name: "map ename es' = map ename es @ [q @ show_nat i @ '']'']"
      by (simp add: pushError_def error_path_def)
    from before have "\<forall>j<i. \<exists>c. TypeChecker B (set_name (show_nat j) e) (Arr xs) es q =
        Some (True, Arr (xs[j := c]), es)"
      by blast
    moreover from fail same
    have "TypeChecker B (set_name (show_nat i) e) (Arr xs) es q = Some (False, Arr xs, es')"
      by simp
    ultimately show ?thesis using i name unfolding q_def by blast
  qed
  have user: "map ename es' = [''user.age'']"
    if "is_leaf f" "sname f = ''age''"
      "validate B [ObjectSchema ''user'' [f] opt] (Obj [(''user'', Obj kvs)]) = Some (False, d', es')"
  proof -
    from that(3) obtain r where "isValid B f (Obj kvs) [] ''user'' = Some r" "\<not> fst r"
      "es' = snd (snd r)"
      by (auto simp: validate_def isValid.simps [of _ "ObjectSchema n fs opt" for n fs opt]
          typeof_def error_path_def split: Option.bind_splits if_splits)
    with isValid_leaf_outcome [OF this(1) that(1)] that(2) show ?thesis
      by (auto simp: leaf_outcome_def pushError_def error_path_def)
  qed
  have ids: "\<exists>i<length xs.
            (\<forall>j<i. \<exists>c. TypeChecker B (set_name (show_nat j) e) (Arr xs) [] ''ids['' =
                        Some (True, Arr (xs[j := c]), [])) \<and>
            TypeChecker B (set_name (show_nat i) e) (Arr xs) [] ''ids['' =
              Some (False, Arr xs, es') \<and>
            map ename es' = [''ids['' @ show_nat i @ '']'']"
    if leaf: "is_leaf e"
      and run: "validate B [ArraySchema ''ids'' e opt] (Obj [(''ids'', Arr xs)]) = Some (False, d', es')"
  proof -
    from run obtain d1 where
      tc: "TypeChecker B (ArraySchema ''ids'' e opt) (Obj [(''ids'', Arr xs)]) [] [] =
        Some (False, d1, es')"
      by (auto simp: validate_def isValid.simps split: Option.bind_splits if_splits)
    have "get ''ids'' (Obj [(''ids'', Arr xs)]) = Some (Arr xs)"
      "parsed_or_raw B (Arr xs) = Arr xs"
      by (simp_all add: parsed_or_raw_def)
    from array [OF tc this leaf] show ?thesis by simp
  qed
  have "error_path [] seg = seg \<and>
   (pre \<noteq> [] \<and> last pre = CHR ''['' \<longrightarrow> error_path pre seg = pre @ seg @ '']'') \<and>
   (pre \<noteq> [] \<and> last pre \<noteq> CHR ''['' \<longrightarrow> error_path pre seg = pre @ ''.'' @ seg) \<and>
   ename (last (pushError es pre seg t x desc)) = error_path pre seg"
    by (simp add: error_path_def pushError_def)
  with field_error [of f d es p d' es'] object [of n fs opt d es p d' es' raw]
    array [of n e opt d es p d' es' raw xs] user ids
  show ?thesis by blast
qed

theorem error_path_builder_witness:
  "validate host [ObjectSchema ''user'' [NumericSchema ''age'' TInt None None None] None]
     (Obj [(''user'', Obj [(''age'', Str ''x'')])]) =
   Some (False, Obj [(''user'', Obj [(''age'', Str ''x'')])],
     [\<lparr>ename = ''user.age'', etype = ''int'', evalue = Str ''x'',
       edescription = ''not a number''\<rparr>]) \<and>
   TypeChecker host (ObjectSchema ''b'' [NumericSchema ''c'' TInt None None None] None)
     (Obj [(''b'', Obj [(''c'', Str ''x'')])]) [] ''a'' =
   Some (False, Obj [(''b'', Obj [(''c'', Str ''x'')])],
     [\<lparr>ename = ''a.b.c'', etype = ''int'', evalue = Str ''x'',
       edescription = ''not a number''\<rparr>]) \<and>
   [''a.b.c''] = [error_path (error_path ''a'' ''b'') ''c''] \<and>
   TypeChecker host (ObjectSchema ''0'' [NumericSchema ''age'' TInt None None None] None)
     (Arr [Obj [(''age'', Str ''x'')]]) [] ''items['' =
   Some (False, Arr [Obj [(''age'', Str ''x'')]],
     [\<lparr>ename = ''items[0].age'', etype = ''int'', evalue = Str ''x'',
       edescription = ''not a number''\<rparr>]) \<and>
   [''items[0].age''] = [error_path (error_path ''items['' ''0'') ''age''] \<and>
   TypeChecker host (ArraySchema ''ids'' (NumericSchema [] TInt None None None) None)
     (Obj [(''ids'', Arr [Str ''1'', Str ''x'', Str ''y''])]) [] ''user'' =
   Some (False, Obj [(''ids'', Arr [Num (Fin 1), Str ''x'', Str ''y''])],
     [\<lparr>ename = ''user.ids[1]'', etype = ''int'', evalue = Str ''x'',
       edescription = ''not a number''\<rparr>]) \<and>
   (\<exists>i<length [Str ''1'', Str ''x'', Str ''y''].
      TypeChecker host (set_name (show_nat i) (NumericSchema [] TInt None None None))
        (Arr [Str ''1'', Str ''x'', Str ''y'']) [] ''user.ids['' =
      Some (False, Arr [Str ''1'', Str ''x'', Str ''y''],
        [\<lparr>ename = ''user.ids[1]'', etype = ''int'', evalue = Str ''x'',
          edescription = ''not a number''\<rparr>]) \<and>
      [''user.ids[1]''] = [''user.ids['' @ show_nat i @ '']''])"
proof -
  let ?age = "NumericSchema ''age'' TInt None None None"
  let ?euser = "\<lparr>ename = ''user.age'', etype = ''int'', evalue = Str ''x'',
       edescription = ''not a number''\<rparr>"
  have user: "validate host [ObjectSchema ''user'' [?age] None]
     (Obj [(''user'', Obj [(''age'', Str ''x'')])]) =
     Some (False, Obj [(''user'', Obj [(''age'', Str ''x'')])], [?euser])"
    by code_simp
  let ?c = "NumericSchema ''c'' TInt None None None"
  let ?db = "Obj [(''b'', Obj [(''c'', Str ''x'')])]"
  let ?eabc = "\<lparr>ename = ''a.b.c'', etype = ''int'', evalue = Str ''x'',
       edescription = ''not a number''\<rparr>"
  have abc: "TypeChecker host (ObjectSchema ''b'' [?c] None) ?db [] ''a'' = Some (False, ?db, [?eabc])"
    by code_simp
  have shape: "typeof (parsed_or_raw host (Obj kvs)) = ''object''" for kvs
    by (simp add: parsed_or_raw_def typeof_def)
  from error_path_builder [where B = host and n = "''b''" and fs = "[?c]" and opt = None
      and d = ?db and es = "[]" and p = "''a''" and d' = ?db and es' = "[?eabc]"
      and raw = "Obj [(''c'', Str ''x'')]",
      THEN conjunct2, THEN conjunct2, THEN conjunct2, THEN conjunct2, THEN conjunct2,
      THEN conjunct1] abc shape
  obtain before g behind o' where
    "[?c] = before @ g # behind"
    "is_leaf g \<or> missing (field (sname g) o') \<longrightarrow>
       map ename [?eabc] = map ename [] @ [error_path (error_path ''a'' ''b'') (sname g)]"
    by auto
  then have n_abc: "[''a.b.c''] = [error_path (error_path ''a'' ''b'') ''c'']"
    by (cases before) auto
  let ?di = "Arr [Obj [(''age'', Str ''x'')]]"
  let ?eitem = "\<lparr>ename = ''items[0].age'', etype = ''int'', evalue = Str ''x'',
       edescription = ''not a number''\<rparr>"
  have item: "TypeChecker host (ObjectSchema ''0'' [?age] None) ?di [] ''items['' =
      Some (False, ?di, [?eitem])"
    by code_simp
  have gi: "get ''0'' ?di = Some (Obj [(''age'', Str ''x'')])" by code_simp
  from error_path_builder [where B = host and n = "''0''" and fs = "[?age]" and opt = None
      and d = ?di and es = "[]" and p = "''items[''" and d' = ?di and es' = "[?eitem]"
      and raw = "Obj [(''age'', Str ''x'')]",
      THEN conjunct2, THEN conjunct2, THEN conjunct2, THEN conjunct2, THEN conjunct2,
      THEN conjunct1] item gi shape
  obtain before g behind o' where
    "[?age] = before @ g # behind"
    "is_leaf g \<or> missing (field (sname g) o') \<longrightarrow>
       map ename [?eitem] = map ename [] @ [error_path (error_path ''items['' ''0'') (sname g)]"
    by auto
  then have n_item: "[''items[0].age''] = [error_path (error_path ''items['' ''0'') ''age'']"
    by (cases before) auto
  let ?id = "NumericSchema [] TInt None None None"
  let ?xs = "[Str ''1'', Str ''x'', Str ''y'']"
  let ?eids = "\<lparr>ename = ''user.ids[1]'', etype = ''int'', evalue = Str ''x'',
       edescription = ''not a number''\<rparr>"
  have ids: "TypeChecker host (ArraySchema ''ids'' ?id None) (Obj [(''ids'', Arr ?xs)]) [] ''user'' =
      Some (False, Obj [(''ids'', Arr [Num (Fin 1), Str ''x'', Str ''y''])], [?eids])"
    by code_simp
  have pr: "parsed_or_raw host (Arr ?xs) = Arr ?xs" by (simp add: parsed_or_raw_def)
  from error_path_builder [where B = host and n = "''ids''" and e = ?id and opt = None
      and d = "Obj [(''ids'', Arr ?xs)]" and es = "[]" and p = "''user''"
      and d' = "Obj [(''ids'', Arr [Num (Fin 1), Str ''x'', Str ''y''])]" and es' = "[?eids]"
      and raw = "Arr ?xs" and xs = ?xs,
      THEN conjunct2, THEN conjunct2, THEN conjunct2, THEN conjunct2, THEN conjunct2,
      THEN conjunct2, THEN conjunct1] ids pr
  have n_ids: "\<exists>i<length ?xs.
      TypeChecker host (set_name (show_nat i) ?id) (Arr ?xs) [] ''user.ids['' =
        Some (False, Arr ?xs, [?eids]) \<and>
      [''user.ids[1]''] = [''user.ids['' @ show_nat i @ '']'']"
    by simp blast
  from user abc n_abc item n_item ids n_ids show ?thesis by simp
qed

section \<open>The enum checker\<close>

text \<open>
  C10: enum membership is tested without any coercion.  When the symbols of an enum schema
  are numbers, a string in the bag never matches: the check fails with the
  \<open>invalid symbol\<close> error that lists the symbols, records the string and leaves the bag
  as it is, also when the string is the text of a listed number.
\<close>

theorem enum_no_coercion:
  "get n d = Some (Str t) \<Longrightarrow>
   TypeChecker B (EnumSchema n (Numbers ns) opt) d es p =
     Some (False, d,
       es @ [\<lparr>ename = error_path p n, etype = ''enum'', evalue = Str t,
               edescription = ''invalid symbol, valid symbols : ['' @
                 join '', '' (map (Number_toString B) ns) @ '']''\<rparr>])"
  by (auto simp: TypeChecker_enum_def typeof_def pushError_def)

theorem enum_no_coercion_witness:
  "host_parseInt (Str ''1'') = Fin 1 \<and>
   TypeChecker host (EnumSchema ''level'' (Numbers [Fin 1, Fin 2]) None)
     (Obj [(''level'', Str ''1'')]) [] [] =
     Some (False, Obj [(''level'', Str ''1'')],
       [\<lparr>ename = ''level'', etype = ''enum'', evalue = Str ''1'',
          edescription = ''invalid symbol, valid symbols : [1, 2]''\<rparr>])"
proof -
  have "get ''level'' (Obj [(''level'', Str ''1'')]) = Some (Str ''1'')" by simp
  from enum_no_coercion [OF this, of host "[Fin 1, Fin 2]" None "[]" "[]"]
  have "TypeChecker host (EnumSchema ''level'' (Numbers [Fin 1, Fin 2]) None)
     (Obj [(''level'', Str ''1'')]) [] [] =
     Some (False, Obj [(''level'', Str ''1'')],
       [\<lparr>ename = ''level'', etype = ''enum'', evalue = Str ''1'',
          edescription = ''invalid symbol, valid symbols : ['' @
                 join '', '' (map (Number_toString host) [Fin 1, Fin 2]) @ '']''\<rparr>])"
    by (simp add: error_path_def)
  moreover have "join '', '' (map (Number_toString host) [Fin 1, Fin 2]) = ''1, 2''"
    by code_simp
  moreover have "host_parseInt (Str ''1'') = Fin 1" by code_simp
  ultimately show ?thesis by simp
qed

section \<open>The boolean checker\<close>

text \<open>
  C3: what the boolean checker writes back for an accepted value \<open>x\<close>.  The source stores
  \<open>value === 'true' || value === '1' || value\<close>: the boolean \<open>true\<close> for the strings
  \<open>true\<close> and \<open>1\<close>, and the value itself in every other case.  So the booleans stay
  what they are, but the strings \<open>false\<close> and \<open>0\<close> and the numbers \<open>0\<close> and \<open>1\<close> are
  stored unchanged and not as booleans.
\<close>

theorem boolean_written_value:
  "get n d = Some x \<Longrightarrow> x \<in> set (allowedValues (BooleanSchema n a opt)) \<Longrightarrow>
   TypeChecker B (BooleanSchema n a opt) d es p =
     map_option (\<lambda>d'. (True, d', es))
       (set_property n (if x = Str ''true'' \<or> x = Str ''1'' then Bool True else x) d)"
  by (cases "set_property n (if x = Str ''true'' \<or> x = Str ''1'' then Bool True else x) d")
    (auto simp: TypeChecker_boolean_def)

theorem boolean_written_value_witness:
  "TypeChecker host (BooleanSchema ''b'' None None) (Obj [(''b'', Str ''false'')]) [] [] =
     Some (True, Obj [(''b'', Str ''false'')], []) \<and>
   TypeChecker host (BooleanSchema ''b'' None None) (Obj [(''b'', Str ''0'')]) [] [] =
     Some (True, Obj [(''b'', Str ''0'')], []) \<and>
   TypeChecker host (BooleanSchema ''b'' None None) (Obj [(''b'', Num (Fin 1))]) [] [] =
     Some (True, Obj [(''b'', Num (Fin 1))], []) \<and>
   TypeChecker host (BooleanSchema ''b'' None None) (Obj [(''b'', Num (Fin 0))]) [] [] =
     Some (True, Obj [(''b'', Num (Fin 0))], [])"
  using boolean_written_value [of "''b''" "Obj [(''b'', Str ''false'')]" "Str ''false''" None None host "[]" "[]"]
    boolean_written_value [of "''b''" "Obj [(''b'', Str ''0'')]" "Str ''0''" None None host "[]" "[]"]
    boolean_written_value [of "''b''" "Obj [(''b'', Num (Fin 1))]" "Num (Fin 1)" None None host "[]" "[]"]
    boolean_written_value [of "''b''" "Obj [(''b'', Num (Fin 0))]" "Num (Fin 0)" None None host "[]" "[]"]
  by (simp add: allowedValues_def)

section \<open>Bounds that are zero\<close>

text \<open>
  C6: a bound that is the number \<open>0\<close> is enforced, and an absent bound is never checked.
  For a field that is present with raw value \<open>x\<close>, parsed value \<open>pv\<close> and text \<open>s\<close>:
  with \<open>min\<close> zero a parsed number below zero fails with \<open>less than min\<close> and any
  other goes on as without \<open>min\<close>; with \<open>max\<close> zero a value that passes without \<open>max\<close>
  fails with \<open>greater than max\<close> exactly when it is above zero; without bounds every
  number passes.  For a string, \<open>min_length\<close> zero changes nothing (no length is below
  it), \<open>max_length\<close> zero turns the passes of a non-empty text into
  \<open>length greater than max\<close>, and without bounds every text passes.
\<close>

theorem zero_bound_enforced:
  assumes "has_property n d = Some True" and "get n d = Some x"
    and "pv = (if t = TInt then parseInt B x else parseFloat B x)"
    and "(case x of Str s' \<Rightarrow> Some s' | _ \<Rightarrow> JSON_stringify B x) = Some s"
  shows
    "(pv \<noteq> NaN \<longrightarrow>
        TypeChecker B (NumericSchema n t (Some (Fin 0)) mx opt) d es p =
          (if num_lt pv (Fin 0)
           then Some (False, d, pushError es p n (stype (NumericSchema n t None mx opt)) x
                  ''less than min'')
           else TypeChecker B (NumericSchema n t None mx opt) d es p)) \<and>
     TypeChecker B (NumericSchema n t mn (Some (Fin 0)) opt) d es p =
       (case TypeChecker B (NumericSchema n t mn None opt) d es p of
          Some (True, d', es') \<Rightarrow>
            if num_lt (Fin 0) pv
            then Some (False, d, pushError es p n (stype (NumericSchema n t mn None opt)) x
                   ''greater than max'')
            else Some (True, d', es')
        | r \<Rightarrow> r) \<and>
     (pv \<noteq> NaN \<longrightarrow>
        TypeChecker B (NumericSchema n t None None opt) d es p =
          map_option (\<lambda>d'. (True, d', es)) (set_property n (Num pv) d)) \<and>
     TypeChecker B (StringSchema n l (Some (Fin 0)) mxl opt) d es p =
       TypeChecker B (StringSchema n l None mxl opt) d es p \<and>
     TypeChecker B (StringSchema n l mnl (Some (Fin 0)) opt) d es p =
       (case TypeChecker B (StringSchema n l mnl None opt) d es p of
          Some (True, d', es') \<Rightarrow>
            if s \<noteq> []
            then Some (False, d, pushError es p n ''string'' (Str s) ''length greater than max'')
            else Some (True, d', es')
        | r \<Rightarrow> r) \<and>
     ((l = None \<or> l = Some (Fin 0)) \<longrightarrow>
        TypeChecker B (StringSchema n l None None opt) d es p =
          map_option (\<lambda>d'. (True, d', es)) (set_property n (Str s) d))"
proof -
  have min0: "pv \<noteq> NaN \<longrightarrow>
        TypeChecker B (NumericSchema n t (Some (Fin 0)) mx opt) d es p =
          (if num_lt pv (Fin 0)
           then Some (False, d, pushError es p n (stype (NumericSchema n t None mx opt)) x
                  ''less than min'')
           else TypeChecker B (NumericSchema n t None mx opt) d es p)"
    using assms(2,3) set_property_present [OF assms(1), of "Num pv"] by (cases t) (simp_all add: NumberTypeChecker_def bound_set_def Let_def)
  have max0: "TypeChecker B (NumericSchema n t mn (Some (Fin 0)) opt) d es p =
       (case TypeChecker B (NumericSchema n t mn None opt) d es p of
          Some (True, d', es') \<Rightarrow>
            if num_lt (Fin 0) pv
            then Some (False, d, pushError es p n (stype (NumericSchema n t mn None opt)) x
                   ''greater than max'')
            else Some (True, d', es')
        | r \<Rightarrow> r)"
    using assms(2,3) set_property_present [OF assms(1), of "Num pv"]
    by (cases t) (auto simp: NumberTypeChecker_def bound_set_def Let_def)
  have none: "pv \<noteq> NaN \<longrightarrow>
        TypeChecker B (NumericSchema n t None None opt) d es p =
          map_option (\<lambda>d'. (True, d', es)) (set_property n (Num pv) d)"
    using assms(2,3) set_property_present [OF assms(1), of "Num pv"]
    by (cases t) (auto simp: NumberTypeChecker_def bound_set_def Let_def)
  have val: "(case x of Str s' \<Rightarrow> Some s' | _ \<Rightarrow> JSON_stringify B x) = Some s"
    by (rule assms(4))
  have smin0: "TypeChecker B (StringSchema n l (Some (Fin 0)) mxl opt) d es p =
       TypeChecker B (StringSchema n l None mxl opt) d es p"
    using assms(2) val set_property_present [OF assms(1), of "Str s"]
    by (cases l) (auto simp: TypeChecker_string_def length_mismatch_def below_min_length_def above_max_length_def bound_set_def value_length_def Let_def)
  have smax0: "TypeChecker B (StringSchema n l mnl (Some (Fin 0)) opt) d es p =
       (case TypeChecker B (StringSchema n l mnl None opt) d es p of
          Some (True, d', es') \<Rightarrow>
            if s \<noteq> []
            then Some (False, d, pushError es p n ''string'' (Str s) ''length greater than max'')
            else Some (True, d', es')
        | r \<Rightarrow> r)"
    using assms(2) val set_property_present [OF assms(1), of "Str s"]
    by (cases l; cases mnl)
      (auto simp: TypeChecker_string_def length_mismatch_def below_min_length_def above_max_length_def bound_set_def value_length_def of_value_def Let_def)
  have snone: "(l = None \<or> l = Some (Fin 0)) \<longrightarrow>
        TypeChecker B (StringSchema n l None None opt) d es p =
          map_option (\<lambda>d'. (True, d', es)) (set_property n (Str s) d)"
    using assms(2) val set_property_present [OF assms(1), of "Str s"]
    by (auto simp: TypeChecker_string_def length_mismatch_def below_min_length_def above_max_length_def bound_set_def value_length_def of_value_def truthy_num_def Let_def)
  from min0 max0 none smin0 smax0 snone show ?thesis by blast
qed


theorem zero_bound_enforced_witness:
  "TypeChecker host (NumericSchema ''n'' TInt (Some (Fin 0)) None None)
     (Obj [(''n'', Num (Fin (- 1)))]) [] [] =
     Some (False, Obj [(''n'', Num (Fin (- 1)))],
       [\<lparr>ename = ''n'', etype = ''int'', evalue = Num (Fin (- 1)),
          edescription = ''less than min''\<rparr>]) \<and>
   TypeChecker host (NumericSchema ''n'' TInt (Some (Fin 0)) None None)
     (Obj [(''n'', Num (Fin 0))]) [] [] = Some (True, Obj [(''n'', Num (Fin 0))], [])"
proof -
  have neg: "TypeChecker host (NumericSchema ''n'' TInt (Some (Fin 0)) None None)
     (Obj [(''n'', Num (Fin (- 1)))]) [] [] =
     Some (False, Obj [(''n'', Num (Fin (- 1)))],
       [\<lparr>ename = ''n'', etype = ''int'', evalue = Num (Fin (- 1)),
          edescription = ''less than min''\<rparr>])"
  proof -
    have s: "(case Num (Fin (- 1)) of Str s' \<Rightarrow> Some s' | _ \<Rightarrow> JSON_stringify host (Num (Fin (- 1)))) =
        Some ''-1''"
      by code_simp
    have pv: "Fin (- 1) = (if TInt = TInt then parseInt host (Num (Fin (- 1)))
        else parseFloat host (Num (Fin (- 1))))"
      by (simp add: host_def)
    from zero_bound_enforced [where B = host and n = "''n''" and t = TInt and mx = None
        and opt = None and es = "[]" and p = "[]", OF _ _ pv s]
    show ?thesis by (simp add: pushError_def error_path_def)
  qed
  have zero: "TypeChecker host (NumericSchema ''n'' TInt (Some (Fin 0)) None None)
     (Obj [(''n'', Num (Fin 0))]) [] [] = Some (True, Obj [(''n'', Num (Fin 0))], [])"
  proof -
    have s: "(case Num (Fin 0) of Str s' \<Rightarrow> Some s' | _ \<Rightarrow> JSON_stringify host (Num (Fin 0))) =
        Some ''0''"
      by code_simp
    have pv: "Fin 0 = (if TInt = TInt then parseInt host (Num (Fin 0))
        else parseFloat host (Num (Fin 0)))"
      by (simp add: host_def)
    from zero_bound_enforced [where B = host and n = "''n''" and t = TInt and mx = None
        and opt = None and es = "[]" and p = "[]", OF _ _ pv s]
    show ?thesis by simp
  qed
  from neg zero show ?thesis by simp
qed

section \<open>Values that are no array\<close>

text \<open>
  C5 (as the code has it): when the raw value is no array and, if it is a string, its parse
  fails or gives no array, the array checker pushes exactly one error \<open>array expected\<close>,
  returns false and leaves the bag as it is.  The recorded value is the raw value when
  the raw value is no string or its parse fails; when the parse succeeds, the recorded
  value is the result of the parse.
\<close>

theorem array_expected_value:
  assumes "get n d = Some raw" and "\<not> isArray raw"
    and "case raw of Str s \<Rightarrow> (case JSON_parse B s of None \<Rightarrow> True | Some v \<Rightarrow> \<not> isArray v)
         | _ \<Rightarrow> True"
  shows "TypeChecker B (ArraySchema n e opt) d es p =
     Some (False, d,
       es @ [\<lparr>ename = error_path p n, etype = ''array'',
               evalue = (case raw of
                           Str s \<Rightarrow> (case JSON_parse B s of None \<Rightarrow> raw | Some v \<Rightarrow> v)
                         | _ \<Rightarrow> raw),
               edescription = ''array expected''\<rparr>])"
  using assms
  by (cases raw) (auto simp: parsed_or_raw_def pushError_def isArray_def split: option.splits)

theorem array_expected_value_witness:
  "TypeChecker host (ArraySchema ''ids'' (NumericSchema [] TInt None None None) None)
     (Obj [(''ids'', Str ''{}'')]) [] [] =
     Some (False, Obj [(''ids'', Str ''{}'')],
       [\<lparr>ename = ''ids'', etype = ''array'', evalue = Obj [],
          edescription = ''array expected''\<rparr>]) \<and>
   TypeChecker host (ArraySchema ''ids'' (NumericSchema [] TInt None None None) None)
     (Obj [(''ids'', Str ''1,2'')]) [] [] =
     Some (False, Obj [(''ids'', Str ''1,2'')],
       [\<lparr>ename = ''ids'', etype = ''array'', evalue = Str ''1,2'',
          edescription = ''array expected''\<rparr>])"
proof -
  have p1: "JSON_parse host ''{}'' = Some (Obj [])" by code_simp
  have p2: "JSON_parse host ''1,2'' = None" by code_simp
  show ?thesis
    using array_expected_value [where B = host and n = "''ids''" and raw = "Str ''{}''"
        and d = "Obj [(''ids'', Str ''{}'')]" and es = "[]" and p = "[]" and opt = None
        and e = "NumericSchema [] TInt None None None"]
      array_expected_value [where B = host and n = "''ids''" and raw = "Str ''1,2''"
        and d = "Obj [(''ids'', Str ''1,2'')]" and es = "[]" and p = "[]" and opt = None
        and e = "NumericSchema [] TInt None None None"]
    by (simp add: p1 p2 isArray_def error_path_def)
qed

text \<open>
  The claim as written records the raw value in every case: for the string \<open>5\<close> the
  code records the number \<open>5\<close>.
\<close>

theorem array_expected_value_counterexample:
  "TypeChecker host (ArraySchema ''ids'' (NumericSchema [] TInt None None None) None)
     (Obj [(''ids'', Str ''5'')]) [] [] =
     Some (False, Obj [(''ids'', Str ''5'')],
       [\<lparr>ename = ''ids'', etype = ''array'', evalue = Num (Fin 5),
          edescription = ''array expected''\<rparr>]) \<and>
   Num (Fin 5) \<noteq> Str ''5''"
  by code_simp

section \<open>Sequences of fields\<close>

text \<open>
  C1 (as the code has it): the validator checks the entries of a sequence in order and
  stops at the first one that fails; with \<open>valid &&= isValid(...)\<close> no later entry is
  evaluated.  A call on a sequence therefore adds no error when it returns true and
  exactly one error when it returns false.  When the entries \<open>xs\<close> before an entry \<open>s\<close>
  all pass, the call on \<open>xs @ s # ys\<close> goes on with \<open>ys\<close> if \<open>s\<close> passes, and if \<open>s\<close>
  fails it returns false with the bag and the sink as the check of \<open>s\<close> left them,
  whatever \<open>ys\<close> holds.  For independent fields, no two of which share a name, the
  checks can be taken one by one against the bag the call starts from: when every field
  passes on its own, the call returns true and holds for every field the value its own
  check leaves; when the fields \<open>pre\<close> pass on their own and the field \<open>f\<close> after them
  fails on its own, the call on \<open>pre @ f # post\<close> returns false and adds the one error
  of \<open>f\<close>, whatever the fields \<open>post\<close> would do, and the bag holds the coerced values of
  \<open>pre\<close> and every other value as it was.
\<close>

theorem isValid_seq_first_failure:
  "(isValid_seq B True ss d es p = Some (v, d', es') \<longrightarrow>
      (if v then es' = es else (\<exists>e. es' = es @ [e]))) \<and>
   (isValid_seq B True xs d es p = Some (True, d1, es1) \<and>
    isValid B s d1 es1 p = Some (w, d2, es2) \<longrightarrow>
      isValid_seq B True (xs @ s # ys) d es p =
        (if w then isValid_seq B True ys d2 es2 p else Some (False, d2, es2))) \<and>
   (distinct (map sname fs) \<and> (\<forall>x\<in>set fs. \<exists>dx. isValid B x d es p = Some (True, dx, es)) \<longrightarrow>
      (\<exists>d'. isValid_seq B True fs d es p = Some (True, d', es) \<and>
         (\<forall>x\<in>set fs. \<forall>dx. isValid B x d es p = Some (True, dx, es) \<longrightarrow>
            get (sname x) d' = get (sname x) dx) \<and>
         (\<forall>k. k \<notin> sname ` set fs \<longrightarrow> get k d' = get k d))) \<and>
   (distinct (map sname (pre @ [f])) \<and>
    (\<forall>x\<in>set pre. \<exists>dx. isValid B x d es p = Some (True, dx, es)) \<and>
    isValid B f d es p = Some (False, df, ef) \<longrightarrow>
      (\<exists>d' e. isValid_seq B True (pre @ f # post) d es p = Some (False, d', ef) \<and>
         ef = es @ [e] \<and>
         (\<forall>x\<in>set pre. \<forall>dx. isValid B x d es p = Some (True, dx, es) \<longrightarrow>
            get (sname x) d' = get (sname x) dx) \<and>
         get (sname f) d' = get (sname f) df \<and>
         (\<forall>k. k \<notin> sname ` set (pre @ [f]) \<longrightarrow> get k d' = get k d)))"
proof -
  have one: "isValid_seq B True ss d es p = Some (v, d', es') \<longrightarrow>
      (if v then es' = es else (\<exists>e. es' = es @ [e]))"
    using outcomes(2) [of B True ss d es p "(v, d', es')"] by (simp add: loop_outcome_def)
  have two: "isValid_seq B True xs d es p = Some (True, d1, es1) \<and>
    isValid B s d1 es1 p = Some (w, d2, es2) \<longrightarrow>
      isValid_seq B True (xs @ s # ys) d es p =
        (if w then isValid_seq B True ys d2 es2 p else Some (False, d2, es2))"
    by (simp add: isValid_seq_append)
  have three: "\<exists>d'. isValid_seq B True fs d es p = Some (True, d', es) \<and>
         (\<forall>x\<in>set fs. \<forall>dx. isValid B x d es p = Some (True, dx, es) \<longrightarrow>
            get (sname x) d' = get (sname x) dx) \<and>
         (\<forall>k. k \<notin> sname ` set fs \<longrightarrow> get k d' = get k d)"
    if "distinct (map sname fs)" "\<forall>x\<in>set fs. \<exists>dx. isValid B x d es p = Some (True, dx, es)"
    using isValid_seq_independent [OF that, of d] by auto
  have four: "\<exists>d' e. isValid_seq B True (pre @ f # post) d es p = Some (False, d', ef) \<and>
         ef = es @ [e] \<and>
         (\<forall>x\<in>set pre. \<forall>dx. isValid B x d es p = Some (True, dx, es) \<longrightarrow>
            get (sname x) d' = get (sname x) dx) \<and>
         get (sname f) d' = get (sname f) df \<and>
         (\<forall>k. k \<notin> sname ` set (pre @ [f]) \<longrightarrow> get k d' = get k d)"
    if dist: "distinct (map sname (pre @ [f]))"
      and pass: "\<forall>x\<in>set pre. \<exists>dx. isValid B x d es p = Some (True, dx, es)"
      and fail: "isValid B f d es p = Some (False, df, ef)"
  proof -
    from dist have dp: "distinct (map sname pre)" and notin: "sname f \<notin> sname ` set pre"
      by auto
    from isValid_seq_independent [OF dp pass, of d] obtain d2 where
      run: "isValid_seq B True pre d es p = Some (True, d2, es)" and
      fr: "\<forall>k. k \<notin> sname ` set pre \<longrightarrow> get k d2 = get k d" and
      hp: "\<forall>k. has_property k d2 = has_property k d" and
      vals: "\<forall>x\<in>set pre. \<forall>dx. isValid B x d es p = Some (True, dx, es) \<longrightarrow>
        get (sname x) d2 = get (sname x) dx"
      by auto
    from fr notin hp have "has_property (sname f) d2 = has_property (sname f) d"
      "get (sname f) d2 = get (sname f) d"
      by simp_all
    from isValid_local [OF fail this] obtain d3 where
      own: "isValid B f d2 es p = Some (False, d3, ef)" and wr: "written (sname f) d2 d3" and
      gf: "get (sname f) d3 = get (sname f) df"
      by blast
    from run own have "isValid_seq B True (pre @ f # post) d es p = Some (False, d3, ef)"
      by (simp add: isValid_seq_append)
    moreover from outcomes(1) [OF fail] obtain e where "ef = es @ [e]"
      by (auto simp: single_outcome_def)
    moreover have "\<forall>x\<in>set pre. \<forall>dx. isValid B x d es p = Some (True, dx, es) \<longrightarrow>
            get (sname x) d3 = get (sname x) dx"
    proof (intro ballI allI impI)
      fix x dx assume x: "x \<in> set pre" "isValid B x d es p = Some (True, dx, es)"
      with notin have "sname x \<noteq> sname f" by (metis imageI)
      from written_other [OF wr this] vals x show "get (sname x) d3 = get (sname x) dx"
        by simp
    qed
    moreover have "\<forall>k. k \<notin> sname ` set (pre @ [f]) \<longrightarrow> get k d3 = get k d"
      using fr written_other [OF wr] by auto
    ultimately show ?thesis using gf by blast
  qed
  from one two three four show ?thesis by blast
qed

theorem isValid_seq_first_failure_witness:
  "distinct (map sname [BooleanSchema ''a'' None None, NumericSchema ''b'' TInt None None None]) \<and>
   isValid host (BooleanSchema ''a'' None None)
     (Obj [(''a'', Str ''true''), (''b'', Str ''x''), (''c'', Str ''y'')]) [] [] =
     Some (True, Obj [(''a'', Bool True), (''b'', Str ''x''), (''c'', Str ''y'')], []) \<and>
   isValid host (NumericSchema ''b'' TInt None None None)
     (Obj [(''a'', Str ''true''), (''b'', Str ''x''), (''c'', Str ''y'')]) [] [] =
     Some (False, Obj [(''a'', Str ''true''), (''b'', Str ''x''), (''c'', Str ''y'')],
       [\<lparr>ename = ''b'', etype = ''int'', evalue = Str ''x'', edescription = ''not a number''\<rparr>]) \<and>
   validate host
     [BooleanSchema ''a'' None None, NumericSchema ''b'' TInt None None None,
      NumericSchema ''c'' TInt None None None]
     (Obj [(''a'', Str ''true''), (''b'', Str ''x''), (''c'', Str ''y'')]) =
   Some (False, Obj [(''a'', Bool True), (''b'', Str ''x''), (''c'', Str ''y'')],
     [\<lparr>ename = ''b'', etype = ''int'', evalue = Str ''x'', edescription = ''not a number''\<rparr>])"
proof -
  let ?d = "Obj [(''a'', Str ''true''), (''b'', Str ''x''), (''c'', Str ''y'')]"
  let ?e = "\<lparr>ename = ''b'', etype = ''int'', evalue = Str ''x'', edescription = ''not a number''\<rparr>"
  have dist: "distinct (map sname ([BooleanSchema ''a'' None None] @
      [NumericSchema ''b'' TInt None None None]))"
    by simp
  have a: "isValid host (BooleanSchema ''a'' None None) ?d [] [] =
      Some (True, Obj [(''a'', Bool True), (''b'', Str ''x''), (''c'', Str ''y'')], [])"
    by code_simp
  then have pass: "\<forall>x\<in>set [BooleanSchema ''a'' None None].
      \<exists>dx. isValid host x ?d [] [] = Some (True, dx, [])"
    by simp
  have b: "isValid host (NumericSchema ''b'' TInt None None None) ?d [] [] = Some (False, ?d, [?e])"
    by code_simp
  have run: "validate host
     [BooleanSchema ''a'' None None, NumericSchema ''b'' TInt None None None,
      NumericSchema ''c'' TInt None None None] ?d =
     Some (False, Obj [(''a'', Bool True), (''b'', Str ''x''), (''c'', Str ''y'')], [?e])"
    by code_simp
  from isValid_seq_first_failure [where B = host and pre = "[BooleanSchema ''a'' None None]"
      and f = "NumericSchema ''b'' TInt None None None"
      and post = "[NumericSchema ''c'' TInt None None None]" and es = "[]" and p = "[]"
      and d = ?d and df = ?d and ef = "[?e]", THEN conjunct2, THEN conjunct2, THEN conjunct2]
    dist pass b
  obtain d' where
    "isValid_seq host True
       ([BooleanSchema ''a'' None None] @ NumericSchema ''b'' TInt None None None #
        [NumericSchema ''c'' TInt None None None]) ?d [] [] = Some (False, d', [?e])"
    by blast
  with run a b show ?thesis by (simp add: validate_def)
qed

text \<open>
  The claim as written wants one error for each failing field.  Of the three fields below,
  checked one by one against the bag, \<open>a\<close> and \<open>c\<close> fail and \<open>b\<close> passes; validating the
  sequence reports \<open>a\<close> alone, and \<open>b\<close> is not even coerced.
\<close>

theorem isValid_seq_counterexample:
  "isValid host (NumericSchema ''a'' TInt None None None) (Obj [(''b'', Str ''1'')]) [] [] =
     Some (False, Obj [(''b'', Str ''1'')],
       [\<lparr>ename = ''a'', etype = ''int'', evalue = Undefined, edescription = ''not found''\<rparr>]) \<and>
   isValid host (BooleanSchema ''b'' None None) (Obj [(''b'', Str ''1'')]) [] [] =
     Some (True, Obj [(''b'', Bool True)], []) \<and>
   isValid host (NumericSchema ''c'' TInt None None None) (Obj [(''b'', Str ''1'')]) [] [] =
     Some (False, Obj [(''b'', Str ''1'')],
       [\<lparr>ename = ''c'', etype = ''int'', evalue = Undefined, edescription = ''not found''\<rparr>]) \<and>
   validate host
     [NumericSchema ''a'' TInt None None None, BooleanSchema ''b'' None None,
      NumericSchema ''c'' TInt None None None] (Obj [(''b'', Str ''1'')]) =
     Some (False, Obj [(''b'', Str ''1'')],
       [\<lparr>ename = ''a'', etype = ''int'', evalue = Undefined, edescription = ''not found''\<rparr>])"
  by code_simp

text \<open>
  Fields that share a name are not independent: a later check sees what an earlier one
  has written.  On its own the boolean check below fails, and after the integer check
  has stored \<open>1\<close> it passes.
\<close>

lemma isValid_seq_shared_name:
  "isValid host (BooleanSchema ''x'' None None) (Obj [(''x'', Str ''1abc'')]) [] [] =
     Some (False, Obj [(''x'', Str ''1abc'')],
       [\<lparr>ename = ''x'', etype = ''boolean'', evalue = Str ''1abc'',
          edescription = ''not boolean''\<rparr>]) \<and>
   validate host [NumericSchema ''x'' TInt None None None, BooleanSchema ''x'' None None]
     (Obj [(''x'', Str ''1abc'')]) =
     Some (True, Obj [(''x'', Num (Fin 1))], [])"
  by code_simp

section \<open>Elements of an array\<close>

text \<open>
  C2 (as the code has it): the array checker checks the elements in index order against
  the copy of the element schema and stops at the first element that fails; with
  \<open>valid &&= TypeChecker[...](...)\<close> no later element is checked or coerced.  It adds no
  error when it returns true and exactly one when it returns false.  When the elements
  at the indices \<open>xs\<close> all pass, the loop over \<open>xs @ i # ys\<close> goes on with \<open>ys\<close> if
  element \<open>i\<close> passes, and if it fails the loop ends false with the array and the sink as
  that check left them.  On a bag value that is an array, or a text that parses to one,
  the verdict of the checker is the verdict of this loop over the array, and the bag then
  holds the array as the loop left it.  The loop returns true exactly when every element
  passes when checked on its own against the array, and then holds the coerced value of
  each; it returns false when some element fails on its own: the elements before the
  first such element \<open>i\<close> are coerced, the one error is that of element \<open>i\<close>, and the
  elements behind it are as they were.
\<close>

theorem array_checker_first_failure:
  "(TypeChecker B (ArraySchema n e opt) d es p = Some (v, d', es') \<longrightarrow>
      (if v then es' = es else (\<exists>err. es' = es @ [err]))) \<and>
   (array_elements B e True xs a es q = Some (True, a1, es1) \<and>
    TypeChecker B (set_name (show_nat i) e) a1 es1 q = Some (w, a2, es2) \<longrightarrow>
      array_elements B e True (xs @ i # ys) a es q =
        (if w then array_elements B e True ys a2 es2 q else Some (False, a2, es2))) \<and>
   (get n d = Some raw \<and> parsed_or_raw B raw = Arr vs \<longrightarrow>
      TypeChecker B (ArraySchema n e opt) d es p =
        (case array_elements B e True [0..<length vs] (Arr vs) es
                (if p \<noteq> [] then p @ ''.'' @ n @ ''['' else n @ ''['') of
           None \<Rightarrow> None
         | Some (u, a', es') \<Rightarrow> map_option (\<lambda>d'. (u, d', es')) (set_property n a' d))) \<and>
   (array_elements B e True [0..<length vs] (Arr vs) es q = Some (u, a', eu) \<longrightarrow>
      (\<exists>ws. a' = Arr ws \<and> length ws = length vs \<and>
         (if u then eu = es \<and>
            (\<forall>j<length vs.
               TypeChecker B (set_name (show_nat j) e) (Arr vs) es q =
                 Some (True, Arr (vs[j := ws ! j]), es))
          else \<exists>k<length vs.
            (\<forall>j<k. TypeChecker B (set_name (show_nat j) e) (Arr vs) es q =
                 Some (True, Arr (vs[j := ws ! j]), es)) \<and>
            TypeChecker B (set_name (show_nat k) e) (Arr vs) es q =
              Some (False, Arr (vs[k := ws ! k]), eu) \<and>
            (\<forall>j. k < j \<and> j < length vs \<longrightarrow> ws ! j = vs ! j))))"
proof -
  have one: "TypeChecker B (ArraySchema n e opt) d es p = Some (v, d', es') \<longrightarrow>
      (if v then es' = es else (\<exists>err. es' = es @ [err]))"
    using outcomes(3) [of B "ArraySchema n e opt" d es p "(v, d', es')"]
    by (simp add: single_outcome_def)
  have two: "array_elements B e True xs a es q = Some (True, a1, es1) \<and>
    TypeChecker B (set_name (show_nat i) e) a1 es1 q = Some (w, a2, es2) \<longrightarrow>
      array_elements B e True (xs @ i # ys) a es q =
        (if w then array_elements B e True ys a2 es2 q else Some (False, a2, es2))"
    by (simp add: array_elements_append)
  have three: "TypeChecker B (ArraySchema n e opt) d es p =
        (case array_elements B e True [0..<length vs] (Arr vs) es
                (if p \<noteq> [] then p @ ''.'' @ n @ ''['' else n @ ''['') of
           None \<Rightarrow> None
         | Some (u, a', es') \<Rightarrow> map_option (\<lambda>d'. (u, d', es')) (set_property n a' d))"
    if raw: "get n d = Some raw" and vs: "parsed_or_raw B raw = Arr vs"
  proof (cases "isArray raw")
    case True
    with vs have "raw = Arr vs" by (cases raw) (simp_all add: parsed_or_raw_def isArray_def)
    with raw show ?thesis
      by (auto simp: isArray_def elements_def split: option.splits Option.bind_splits)
  next
    case False
    define q where "q = (if p \<noteq> [] then p @ ''.'' @ n @ ''['' else n @ ''['')"
    define loop where "loop = array_elements B e True [0..<length vs] (Arr vs) es q"
    from raw vs False have run: "TypeChecker B (ArraySchema n e opt) d es p =
        set_property n (Arr vs) d \<bind> (\<lambda>data1. loop \<bind> (\<lambda>(u, a', es').
          set_property n a' data1 \<bind> (\<lambda>d'. Some (u, d', es'))))"
      by (simp add: Let_def isArray_def elements_def q_def loop_def)
    have "set_property n (Arr vs) d \<bind> (\<lambda>data1. loop \<bind> (\<lambda>(u, a', es').
          set_property n a' data1 \<bind> (\<lambda>d'. Some (u, d', es')))) =
        (case loop of None \<Rightarrow> None
         | Some (u, a', es') \<Rightarrow> map_option (\<lambda>d'. (u, d', es')) (set_property n a' d))"
    proof (cases "has_property n d = Some True")
      case True
      from set_property_present [OF True] obtain d1 where
        d1: "set_property n (Arr vs) d = Some d1"
        by blast
      from set_property_twice [OF True d1] have "set_property n a' d1 = set_property n a' d" for a' .
      with d1 show ?thesis
        by (auto split: option.splits Option.bind_splits)
    next
      case no: False
      from False vs have "raw \<noteq> Undefined" by (auto simp: parsed_or_raw_def)
      with raw no have "set_property n x d = None" for x
        by (cases d) (auto simp: Let_def split: option.splits if_splits)
      then show ?thesis
        by (auto split: option.splits)
    qed
    with run show ?thesis by (simp add: q_def loop_def)
  qed
  have four: "array_elements B e True [0..<length vs] (Arr vs) es q = Some (u, a', eu) \<longrightarrow>
      (\<exists>ws. a' = Arr ws \<and> length ws = length vs \<and>
         (if u then eu = es \<and>
            (\<forall>j<length vs.
               TypeChecker B (set_name (show_nat j) e) (Arr vs) es q =
                 Some (True, Arr (vs[j := ws ! j]), es))
          else \<exists>k<length vs.
            (\<forall>j<k. TypeChecker B (set_name (show_nat j) e) (Arr vs) es q =
                 Some (True, Arr (vs[j := ws ! j]), es)) \<and>
            TypeChecker B (set_name (show_nat k) e) (Arr vs) es q =
              Some (False, Arr (vs[k := ws ! k]), eu) \<and>
            (\<forall>j. k < j \<and> j < length vs \<longrightarrow> ws ! j = vs ! j)))"
    using array_elements_own [of B e vs es q u a' eu] by blast
  from one two three four show ?thesis by blast
qed

theorem array_checker_first_failure_witness:
  "TypeChecker host (ArraySchema ''flags'' (BooleanSchema [] None None) None)
     (Obj [(''flags'', Arr [Str ''true'', Str ''x'', Str ''1''])]) [] [] =
   Some (False, Obj [(''flags'', Arr [Bool True, Str ''x'', Str ''1''])],
     [\<lparr>ename = ''flags[1]'', etype = ''boolean'', evalue = Str ''x'',
        edescription = ''not boolean''\<rparr>]) \<and>
   TypeChecker host (ArraySchema ''flags'' (BooleanSchema [] None None) None)
     (Obj [(''flags'', Str ''[\"true\", \"x\", \"1\"]'')]) [] [] =
   Some (False, Obj [(''flags'', Arr [Bool True, Str ''x'', Str ''1''])],
     [\<lparr>ename = ''flags[1]'', etype = ''boolean'', evalue = Str ''x'',
        edescription = ''not boolean''\<rparr>])"
proof -
  let ?vs = "[Str ''true'', Str ''x'', Str ''1'']"
  let ?e = "\<lparr>ename = ''flags[1]'', etype = ''boolean'', evalue = Str ''x'',
        edescription = ''not boolean''\<rparr>"
  have pre: "array_elements host (BooleanSchema [] None None) True [0] (Arr ?vs) [] ''flags['' =
      Some (True, Arr [Bool True, Str ''x'', Str ''1''], [])"
    by code_simp
  have fail: "TypeChecker host (set_name (show_nat 1) (BooleanSchema [] None None))
      (Arr [Bool True, Str ''x'', Str ''1'']) [] ''flags['' =
      Some (False, Arr [Bool True, Str ''x'', Str ''1''], [?e])"
    by code_simp
  have ixs: "[0..<length ?vs] = [0] @ 1 # [2]"
    by code_simp
  have g: "get ''flags'' (Obj [(''flags'', Arr ?vs)]) = Some (Arr ?vs)" by simp
  have p: "parsed_or_raw host (Arr ?vs) = Arr ?vs" by (simp add: parsed_or_raw_def)
  have gt: "get ''flags'' (Obj [(''flags'', Str ''[\"true\", \"x\", \"1\"]'')]) =
      Some (Str ''[\"true\", \"x\", \"1\"]'')"
    by simp
  have pt: "parsed_or_raw host (Str ''[\"true\", \"x\", \"1\"]'') = Arr ?vs" by code_simp
  note inst = array_checker_first_failure [where B = host and e = "BooleanSchema [] None None"
      and xs = "[0]" and i = 1 and ys = "[2]" and es = "[]" and q = "''flags[''" and p = "[]"
      and a = "Arr ?vs" and w = False and n = "''flags''" and vs = ?vs and opt = None]
  from inst [THEN conjunct2, THEN conjunct1] pre fail
  have loop: "array_elements host (BooleanSchema [] None None) True ([0] @ 1 # [2]) (Arr ?vs) []
      ''flags['' = Some (False, Arr [Bool True, Str ''x'', Str ''1''], [?e])"
    by simp
  from inst [where d = "Obj [(''flags'', Arr ?vs)]" and raw = "Arr ?vs",
      THEN conjunct2, THEN conjunct2, THEN conjunct1] g p loop
  have "TypeChecker host (ArraySchema ''flags'' (BooleanSchema [] None None) None)
     (Obj [(''flags'', Arr ?vs)]) [] [] =
     Some (False, Obj [(''flags'', Arr [Bool True, Str ''x'', Str ''1''])], [?e])"
    by (simp only: ixs) simp
  moreover
  from inst [where d = "Obj [(''flags'', Str ''[\"true\", \"x\", \"1\"]'')]"
      and raw = "Str ''[\"true\", \"x\", \"1\"]''",
      THEN conjunct2, THEN conjunct2, THEN conjunct1] gt pt loop
  have "TypeChecker host (ArraySchema ''flags'' (BooleanSchema [] None None) None)
     (Obj [(''flags'', Str ''[\"true\", \"x\", \"1\"]'')]) [] [] =
     Some (False, Obj [(''flags'', Arr [Bool True, Str ''x'', Str ''1''])], [?e])"
    by (simp only: ixs) simp
  ultimately show ?thesis by simp
qed

text \<open>
  The claim as written wants an error for every failing element.  Both elements below
  fail when checked on their own; the array checker reports the first alone.
\<close>

theorem array_checker_counterexample:
  "TypeChecker host (set_name (show_nat 0) (BooleanSchema [] None None))
     (Arr [Str ''x'', Str ''y'']) [] ''flags['' =
     Some (False, Arr [Str ''x'', Str ''y''],
       [\<lparr>ename = ''flags[0]'', etype = ''boolean'', evalue = Str ''x'',
          edescription = ''not boolean''\<rparr>]) \<and>
   TypeChecker host (set_name (show_nat 1) (BooleanSchema [] None None))
     (Arr [Str ''x'', Str ''y'']) [] ''flags['' =
     Some (False, Arr [Str ''x'', Str ''y''],
       [\<lparr>ename = ''flags[1]'', etype = ''boolean'', evalue = Str ''y'',
          edescription = ''not boolean''\<rparr>]) \<and>
   TypeChecker host (ArraySchema ''flags'' (BooleanSchema [] None None) None)
     (Obj [(''flags'', Arr [Str ''x'', Str ''y''])]) [] [] =
     Some (False, Obj [(''flags'', Arr [Str ''x'', Str ''y''])],
       [\<lparr>ename = ''flags[0]'', etype = ''boolean'', evalue = Str ''x'',
          edescription = ''not boolean''\<rparr>]) \<and>
   TypeChecker host (ArraySchema ''flags'' (BooleanSchema [] None None) None)
     (Obj [(''flags'', Str ''[\"x\", \"y\"]'')]) [] [] =
     Some (False, Obj [(''flags'', Arr [Str ''x'', Str ''y''])],
       [\<lparr>ename = ''flags[0]'', etype = ''boolean'', evalue = Str ''x'',
          edescription = ''not boolean''\<rparr>])"
  by code_simp

section \<open>The bag after a failure\<close>

text \<open>
  C4 (as the code has it): a field whose check fails records exactly one error.  The bag
  is left as it was when the field has no sub-schemas (a number, a string, a boolean, an
  enum), when the field is missing, and when an array or object field holds a value that
  neither is nor parses to an array, respectively an object.  An array field that holds
  an array, or a text that parses to one, and fails at an element is not left as it was:
  the bag then holds the array, with the elements before the first failing element
  coerced as their own checks coerce them, the failing element as its own check leaves
  it (untouched when it has no sub-schemas), and the elements behind it untouched.
  Likewise an object field that holds an object, or a text that parses to one, and fails
  at a field: the bag then holds the object as the checks of the fields before the
  failing field and the check of that field left it.
\<close>

theorem failing_field_bag:
  "(isValid B s d es p = Some (False, d', es') \<longrightarrow> (\<exists>e. es' = es @ [e])) \<and>
   (isValid B s d es p = Some (False, d', es') \<and> (is_leaf s \<or> missing (field (sname s) d))
      \<longrightarrow> d' = d) \<and>
   (isValid B (ArraySchema n e opt) d es p = Some (False, d', es') \<and> get n d = Some raw \<and>
    \<not> isArray (parsed_or_raw B raw) \<longrightarrow> d' = d) \<and>
   (isValid B (ObjectSchema n fs opt) d es p = Some (False, d', es') \<and> get n d = Some raw \<and>
    typeof (parsed_or_raw B raw) \<noteq> ''object'' \<longrightarrow> d' = d) \<and>
   (isValid B (ArraySchema n e opt) d es p = Some (False, d', es') \<and> get n d = Some raw \<and>
    \<not> missing raw \<and> parsed_or_raw B raw = Arr xs \<longrightarrow>
      (\<exists>i ys. i < length xs \<and> length ys = length xs \<and> set_property n (Arr ys) d = Some d' \<and>
         (\<forall>j<i. TypeChecker B (set_name (show_nat j) e) (Arr xs) es
                   (if p \<noteq> [] then p @ ''.'' @ n @ ''['' else n @ ''['') =
                 Some (True, Arr (xs[j := ys ! j]), es)) \<and>
         TypeChecker B (set_name (show_nat i) e) (Arr xs) es
             (if p \<noteq> [] then p @ ''.'' @ n @ ''['' else n @ ''['') =
           Some (False, Arr (xs[i := ys ! i]), es') \<and>
         (is_leaf e \<longrightarrow> ys ! i = xs ! i) \<and>
         (\<forall>j. i < j \<and> j < length xs \<longrightarrow> ys ! j = xs ! j))) \<and>
   (isValid B (ObjectSchema n fs opt) d es p = Some (False, d', es') \<and> get n d = Some raw \<and>
    \<not> missing raw \<and> typeof (parsed_or_raw B raw) = ''object'' \<longrightarrow>
      (\<exists>pre f post o1 o'. fs = pre @ f # post \<and>
         isValid_seq B True pre (parsed_or_raw B raw) es (error_path p n) = Some (True, o1, es) \<and>
         isValid B f o1 es (error_path p n) = Some (False, o', es') \<and>
         (is_leaf f \<longrightarrow> o' = o1) \<and>
         set_property n o' d = Some d'))"
proof -
  have one: "isValid B s d es p = Some (False, d', es') \<longrightarrow> (\<exists>e. es' = es @ [e])"
    using outcomes(1) [of B s d es p "(False, d', es')"] by (auto simp: single_outcome_def)
  have raw_value: "d' = d"
    if "isValid B s d es p = Some (False, d', es')" "is_leaf s \<or> missing (field (sname s) d)"
  proof (cases "is_leaf s")
    case True
    with isValid_leaf_outcome [OF that(1)] show ?thesis by (simp add: leaf_outcome_def)
  next
    case False
    with that(2) have "missing (field (sname s) d)" by simp
    with that(1) show ?thesis
      by (auto simp: isValid.simps missing_def field_def split: Option.bind_splits if_splits)
  qed
  have checker: "TypeChecker B s d es p = Some (False, d', es') \<and> has_property (sname s) d = Some True"
    if "isValid B s d es p = Some (False, d', es')" "get (sname s) d = Some raw" "\<not> missing raw"
    for s raw
    using that
    by (auto simp: isValid.simps missing_def dest: has_property_get
        split: Option.bind_splits if_splits)
  have no_array: "d' = d"
    if run: "isValid B (ArraySchema n e opt) d es p = Some (False, d', es')"
      and raw: "get n d = Some raw" and shape: "\<not> isArray (parsed_or_raw B raw)"
  proof (cases "missing raw")
    case True
    with raw run show ?thesis
      by (auto simp: isValid.simps missing_def split: Option.bind_splits if_splits)
  next
    case False
    from checker [OF run _ False] raw
    have "TypeChecker B (ArraySchema n e opt) d es p = Some (False, d', es')" by simp
    moreover from shape have "\<not> isArray raw"
      by (cases raw) (auto simp: parsed_or_raw_def isArray_def)
    ultimately show ?thesis using raw shape by (auto simp: Let_def)
  qed
  have no_object: "d' = d"
    if run: "isValid B (ObjectSchema n fs opt) d es p = Some (False, d', es')"
      and raw: "get n d = Some raw" and shape: "typeof (parsed_or_raw B raw) \<noteq> ''object''"
  proof (cases "missing raw")
    case True
    with raw run show ?thesis
      by (auto simp: isValid.simps missing_def split: Option.bind_splits if_splits)
  next
    case False
    from checker [OF run _ False] raw
    have "TypeChecker B (ObjectSchema n fs opt) d es p = Some (False, d', es')" by simp
    moreover from shape have "typeof raw \<noteq> ''object''"
      by (cases raw) (auto simp: parsed_or_raw_def typeof_def)
    ultimately show ?thesis using raw shape by (auto simp: Let_def)
  qed
  have array: "\<exists>i ys. i < length xs \<and> length ys = length xs \<and> set_property n (Arr ys) d = Some d' \<and>
         (\<forall>j<i. TypeChecker B (set_name (show_nat j) e) (Arr xs) es
                   (if p \<noteq> [] then p @ ''.'' @ n @ ''['' else n @ ''['') =
                 Some (True, Arr (xs[j := ys ! j]), es)) \<and>
         TypeChecker B (set_name (show_nat i) e) (Arr xs) es
             (if p \<noteq> [] then p @ ''.'' @ n @ ''['' else n @ ''['') =
           Some (False, Arr (xs[i := ys ! i]), es') \<and>
         (is_leaf e \<longrightarrow> ys ! i = xs ! i) \<and>
         (\<forall>j. i < j \<and> j < length xs \<longrightarrow> ys ! j = xs ! j)"
    if run: "isValid B (ArraySchema n e opt) d es p = Some (False, d', es')"
      and raw: "get n d = Some raw" and present: "\<not> missing raw"
      and shape: "parsed_or_raw B raw = Arr xs"
  proof -
    define q where "q = (if p \<noteq> [] then p @ ''.'' @ n @ ''['' else n @ ''['')"
    from checker [OF run _ present] raw
    have tc: "TypeChecker B (ArraySchema n e opt) d es p = Some (False, d', es')"
      and hp: "has_property n d = Some True"
      by simp_all
    have val: "(if isArray raw then raw else parsed_or_raw B raw) = Arr xs"
      using shape by (cases raw) (auto simp: parsed_or_raw_def isArray_def)
    from tc raw val obtain data1 a' where
      d1: "(if isArray raw then Some d else set_property n (Arr xs) d) = Some data1" and
      loop: "array_elements B e True [0..<length xs] (Arr xs) es q = Some (False, a', es')" and
      w: "set_property n a' data1 = Some d'"
      by (auto simp: Let_def isArray_def elements_def q_def split: Option.bind_splits if_splits)
    have "set_property n a' d = Some d'"
    proof (cases "isArray raw")
      case True
      with d1 w show ?thesis by simp
    next
      case False
      with d1 have "set_property n (Arr xs) d = Some data1" by simp
      from set_property_twice [OF hp this] w show ?thesis by simp
    qed
    moreover from array_elements_own [OF loop] obtain ys i where
      ys: "a' = Arr ys" "length ys = length xs" and i: "i < length xs" and
      before: "\<forall>j<i. TypeChecker B (set_name (show_nat j) e) (Arr xs) es q =
            Some (True, Arr (xs[j := ys ! j]), es)" and
      fail: "TypeChecker B (set_name (show_nat i) e) (Arr xs) es q =
         Some (False, Arr (xs[i := ys ! i]), es')" and
      after: "\<forall>j. i < j \<and> j < length xs \<longrightarrow> ys ! j = xs ! j"
      by auto
    moreover have "ys ! i = xs ! i" if "is_leaf e"
    proof -
      from TypeChecker_leaf_outcome [OF fail] that have "Arr (xs[i := ys ! i]) = Arr xs"
        by (simp add: leaf_outcome_def)
      then have "xs[i := ys ! i] ! i = xs ! i" by simp
      with i show ?thesis by simp
    qed
    ultimately show ?thesis unfolding q_def by blast
  qed
  have object: "\<exists>pre f post o1 o'. fs = pre @ f # post \<and>
         isValid_seq B True pre (parsed_or_raw B raw) es (error_path p n) = Some (True, o1, es) \<and>
         isValid B f o1 es (error_path p n) = Some (False, o', es') \<and>
         (is_leaf f \<longrightarrow> o' = o1) \<and>
         set_property n o' d = Some d'"
    if run: "isValid B (ObjectSchema n fs opt) d es p = Some (False, d', es')"
      and raw: "get n d = Some raw" and present: "\<not> missing raw"
      and shape: "typeof (parsed_or_raw B raw) = ''object''"
  proof -
    from checker [OF run _ present] raw
    have tc: "TypeChecker B (ObjectSchema n fs opt) d es p = Some (False, d', es')"
      and hp: "has_property n d = Some True"
      by simp_all
    have val: "(if typeof raw = ''object'' then raw else parsed_or_raw B raw) =
        parsed_or_raw B raw"
      by (cases raw) (auto simp: parsed_or_raw_def typeof_def)
    from tc raw val shape obtain data1 o' where
      d1: "(if typeof raw = ''object'' then Some d
           else set_property n (parsed_or_raw B raw) d) = Some data1" and
      loop: "isValid_seq B True fs (parsed_or_raw B raw) es (error_path p n) =
        Some (False, o', es')" and
      w: "set_property n o' data1 = Some d'"
      by (auto simp: Let_def split: Option.bind_splits if_splits)
    have "set_property n o' d = Some d'"
    proof (cases "typeof raw = ''object''")
      case True
      with d1 w show ?thesis by simp
    next
      case False
      with d1 have "set_property n (parsed_or_raw B raw) d = Some data1" by simp
      from set_property_twice [OF hp this] w show ?thesis by simp
    qed
    moreover from isValid_seq_split [OF loop] obtain pre f post o1 where
      split: "fs = pre @ f # post"
        "isValid_seq B True pre (parsed_or_raw B raw) es (error_path p n) = Some (True, o1, es)"
        "isValid B f o1 es (error_path p n) = Some (False, o', es')"
      by blast
    moreover have "o' = o1" if "is_leaf f"
      using isValid_leaf_outcome [OF split(3) that] by (simp add: leaf_outcome_def)
    ultimately show ?thesis by blast
  qed
  from one raw_value no_array no_object array object show ?thesis by blast
qed

theorem failing_field_bag_witness:
  "isValid host (NumericSchema ''n'' TInt None (Some (Fin 3)) None) (Obj [(''n'', Str ''5'')]) [] [] =
     Some (False, Obj [(''n'', Str ''5'')],
       [\<lparr>ename = ''n'', etype = ''int'', evalue = Str ''5'',
          edescription = ''greater than max''\<rparr>]) \<and>
   isValid host (ArraySchema ''ids'' (NumericSchema [] TInt None None None) None)
     (Obj [(''ids'', Str ''5'')]) [] [] =
     Some (False, Obj [(''ids'', Str ''5'')],
       [\<lparr>ename = ''ids'', etype = ''array'', evalue = Num (Fin 5),
          edescription = ''array expected''\<rparr>]) \<and>
   isValid host (ObjectSchema ''user'' [] None) (Obj [(''user'', Str ''5'')]) [] [] =
     Some (False, Obj [(''user'', Str ''5'')],
       [\<lparr>ename = ''user'', etype = ''object'', evalue = Num (Fin 5),
          edescription = ''object expected''\<rparr>]) \<and>
   isValid host (ArraySchema ''flags'' (BooleanSchema [] None None) None)
     (Obj [(''flags'', Str ''[\"1\", \"x\", \"0\"]'')]) [] [] =
     Some (False, Obj [(''flags'', Arr [Bool True, Str ''x'', Str ''0''])],
       [\<lparr>ename = ''flags[1]'', etype = ''boolean'', evalue = Str ''x'',
          edescription = ''not boolean''\<rparr>]) \<and>
   (\<exists>i ys. i < length [Str ''1'', Str ''x'', Str ''0''] \<and>
      length ys = length [Str ''1'', Str ''x'', Str ''0''] \<and>
      set_property ''flags'' (Arr ys) (Obj [(''flags'', Str ''[\"1\", \"x\", \"0\"]'')]) =
        Some (Obj [(''flags'', Arr [Bool True, Str ''x'', Str ''0''])]) \<and>
      TypeChecker host (set_name (show_nat i) (BooleanSchema [] None None))
          (Arr [Str ''1'', Str ''x'', Str ''0'']) [] ''flags['' =
        Some (False, Arr ([Str ''1'', Str ''x'', Str ''0''][i := ys ! i]),
          [\<lparr>ename = ''flags[1]'', etype = ''boolean'', evalue = Str ''x'',
             edescription = ''not boolean''\<rparr>]) \<and>
      ys ! i = [Str ''1'', Str ''x'', Str ''0''] ! i) \<and>
   isValid host
     (ObjectSchema ''user'' [BooleanSchema ''ok'' None None, NumericSchema ''age'' TInt None None None,
        NumericSchema ''id'' TInt None None None] None)
     (Obj [(''user'', Obj [(''ok'', Str ''1''), (''age'', Str ''x''), (''id'', Str ''7'')])]) [] [] =
     Some (False, Obj [(''user'', Obj [(''ok'', Bool True), (''age'', Str ''x''), (''id'', Str ''7'')])],
       [\<lparr>ename = ''user.age'', etype = ''int'', evalue = Str ''x'',
          edescription = ''not a number''\<rparr>]) \<and>
   (\<exists>pre f post o'. [BooleanSchema ''ok'' None None, NumericSchema ''age'' TInt None None None,
        NumericSchema ''id'' TInt None None None] = pre @ f # post \<and>
      isValid_seq host True pre (Obj [(''ok'', Str ''1''), (''age'', Str ''x''), (''id'', Str ''7'')])
        [] ''user'' = Some (True, o', []) \<and>
      isValid host f o' [] ''user'' =
        Some (False, o',
          [\<lparr>ename = ''user.age'', etype = ''int'', evalue = Str ''x'',
             edescription = ''not a number''\<rparr>]) \<and>
      set_property ''user'' o'
        (Obj [(''user'', Obj [(''ok'', Str ''1''), (''age'', Str ''x''), (''id'', Str ''7'')])]) =
        Some (Obj [(''user'', Obj [(''ok'', Bool True), (''age'', Str ''x''), (''id'', Str ''7'')])]))"
proof -
  let ?leaf = "NumericSchema ''n'' TInt None (Some (Fin 3)) None"
  let ?eleaf = "\<lparr>ename = ''n'', etype = ''int'', evalue = Str ''5'',
          edescription = ''greater than max''\<rparr>"
  have leaf: "isValid host ?leaf (Obj [(''n'', Str ''5'')]) [] [] =
      Some (False, Obj [(''n'', Str ''5'')], [?eleaf])"
    by code_simp
  let ?ids = "ArraySchema ''ids'' (NumericSchema [] TInt None None None) None"
  let ?eids = "\<lparr>ename = ''ids'', etype = ''array'', evalue = Num (Fin 5),
          edescription = ''array expected''\<rparr>"
  have ids: "isValid host ?ids (Obj [(''ids'', Str ''5'')]) [] [] =
      Some (False, Obj [(''ids'', Str ''5'')], [?eids])"
    by code_simp
  have ids_shape: "\<not> isArray (parsed_or_raw host (Str ''5''))" by code_simp
  let ?eobj = "\<lparr>ename = ''user'', etype = ''object'', evalue = Num (Fin 5),
          edescription = ''object expected''\<rparr>"
  have obj: "isValid host (ObjectSchema ''user'' [] None) (Obj [(''user'', Str ''5'')]) [] [] =
      Some (False, Obj [(''user'', Str ''5'')], [?eobj])"
    by code_simp
  have obj_shape: "typeof (parsed_or_raw host (Str ''5'')) \<noteq> ''object''" by code_simp
  let ?xs = "[Str ''1'', Str ''x'', Str ''0'']"
  let ?txt = "Str ''[\"1\", \"x\", \"0\"]''"
  let ?eflag = "\<lparr>ename = ''flags[1]'', etype = ''boolean'', evalue = Str ''x'',
          edescription = ''not boolean''\<rparr>"
  let ?flags = "ArraySchema ''flags'' (BooleanSchema [] None None) None"
  have arr: "isValid host ?flags (Obj [(''flags'', ?txt)]) [] [] =
      Some (False, Obj [(''flags'', Arr [Bool True, Str ''x'', Str ''0''])], [?eflag])"
    by code_simp
  have arr_shape: "parsed_or_raw host ?txt = Arr ?xs" by code_simp
  let ?fs = "[BooleanSchema ''ok'' None None, NumericSchema ''age'' TInt None None None,
        NumericSchema ''id'' TInt None None None]"
  let ?o = "Obj [(''ok'', Str ''1''), (''age'', Str ''x''), (''id'', Str ''7'')]"
  let ?o' = "Obj [(''ok'', Bool True), (''age'', Str ''x''), (''id'', Str ''7'')]"
  let ?eage = "\<lparr>ename = ''user.age'', etype = ''int'', evalue = Str ''x'',
          edescription = ''not a number''\<rparr>"
  have user: "isValid host (ObjectSchema ''user'' ?fs None) (Obj [(''user'', ?o)]) [] [] =
      Some (False, Obj [(''user'', ?o')], [?eage])"
    by code_simp
  have user_shape: "typeof (parsed_or_raw host ?o) = ''object''" "parsed_or_raw host ?o = ?o"
    by (simp_all add: parsed_or_raw_def typeof_def)
  from failing_field_bag [where B = host and n = "''flags''"
        and e = "BooleanSchema [] None None" and opt = None
        and d = "Obj [(''flags'', ?txt)]" and raw = ?txt and xs = ?xs
        and es = "[]" and p = "[]" and d' = "Obj [(''flags'', Arr [Bool True, Str ''x'', Str ''0''])]"
        and es' = "[?eflag]",
        THEN conjunct2, THEN conjunct2, THEN conjunct2, THEN conjunct2, THEN conjunct1]
    arr arr_shape
  have a5: "\<exists>i ys. i < length ?xs \<and> length ys = length ?xs \<and>
      set_property ''flags'' (Arr ys) (Obj [(''flags'', ?txt)]) =
        Some (Obj [(''flags'', Arr [Bool True, Str ''x'', Str ''0''])]) \<and>
      TypeChecker host (set_name (show_nat i) (BooleanSchema [] None None)) (Arr ?xs) [] ''flags['' =
        Some (False, Arr (?xs[i := ys ! i]), [?eflag]) \<and>
      ys ! i = ?xs ! i"
    by (simp add: missing_def) blast
  from failing_field_bag [where B = host and n = "''user''" and fs = ?fs and opt = None
        and d = "Obj [(''user'', ?o)]" and raw = ?o
        and es = "[]" and p = "[]" and d' = "Obj [(''user'', ?o')]" and es' = "[?eage]",
        THEN conjunct2, THEN conjunct2, THEN conjunct2, THEN conjunct2, THEN conjunct2]
    user user_shape
  obtain pre f post o1 o' where
    sp: "?fs = pre @ f # post" and
    runp: "isValid_seq host True pre ?o [] (error_path [] ''user'') = Some (True, o1, [])" and
    fail: "isValid host f o1 [] (error_path [] ''user'') = Some (False, o', [?eage])" and
    lf: "is_leaf f \<longrightarrow> o' = o1" and
    wr: "set_property ''user'' o' (Obj [(''user'', ?o)]) = Some (Obj [(''user'', ?o')])"
    by (simp add: missing_def) blast
  from sp have "is_leaf f"
    by (cases pre; cases "tl pre"; cases "tl (tl pre)") auto
  with lf have "o' = o1" by simp
  with sp runp fail wr have a6: "\<exists>pre f post o'. ?fs = pre @ f # post \<and>
      isValid_seq host True pre ?o [] ''user'' = Some (True, o', []) \<and>
      isValid host f o' [] ''user'' = Some (False, o', [?eage]) \<and>
      set_property ''user'' o' (Obj [(''user'', ?o)]) = Some (Obj [(''user'', ?o')])"
    by (auto simp: error_path_def)
  from leaf ids obj arr a5 user a6 show ?thesis by simp
qed

text \<open>
  The claim as written leaves every failing field at its raw value.  The array field below
  fails at its second element, and its first element is already coerced in the bag; sent
  as text, the field is replaced by the parsed array with its first element coerced.
\<close>

theorem failing_field_bag_counterexample:
  "validate host [ArraySchema ''flags'' (BooleanSchema [] None None) None]
     (Obj [(''flags'', Arr [Str ''1'', Str ''x''])]) =
   Some (False, Obj [(''flags'', Arr [Bool True, Str ''x''])],
     [\<lparr>ename = ''flags[1]'', etype = ''boolean'', evalue = Str ''x'',
        edescription = ''not boolean''\<rparr>]) \<and>
   Obj [(''flags'', Arr [Bool True, Str ''x''])] \<noteq> Obj [(''flags'', Arr [Str ''1'', Str ''x''])] \<and>
   validate host [ArraySchema ''flags'' (BooleanSchema [] None None) None]
     (Obj [(''flags'', Str ''[\"1\", \"x\"]'')]) =
   Some (False, Obj [(''flags'', Arr [Bool True, Str ''x''])],
     [\<lparr>ename = ''flags[1]'', etype = ''boolean'', evalue = Str ''x'',
        edescription = ''not boolean''\<rparr>])"
  by code_simp

section \<open>Validating a coerced bag again\<close>




lemma show_nat_e21: "show_nat 1000000000000000000000 = ''1000000000000000000000''"
  by (simp add: show_nat.simps digit_char_def)

lemma parseInt_number_e21: "host_parseInt (Num (Fin (10 ^ 21))) = Fin 1"
  by (simp add: show_nat_e21 digit_val_def)


text \<open>
  The two other conditions are needed as well.  Two entries with one name see each
  other's values: below, the string check passes on the text \<open>1e1\<close>, the float check
  stores \<open>10\<close>, and the string check then fails on the text \<open>10\<close> of that number.
  And the object checker takes \<open>null\<close> for an object, as \<open>typeof null\<close> is
  \<open>object\<close>: an object schema without fields accepts the text \<open>null\<close> and stores
  \<open>null\<close>, which \<open>isValid\<close> then reports as a missing field.
\<close>

lemma revalidation_shared_name:
  "validate host
     [StringSchema ''n'' None (Some (Fin 3)) None None, NumericSchema ''n'' TFloat None None None]
     (Obj [(''n'', Str ''1e1'')]) =
     Some (True, Obj [(''n'', Num (Fin 10))], []) \<and>
   validate host
     [StringSchema ''n'' None (Some (Fin 3)) None None, NumericSchema ''n'' TFloat None None None]
     (Obj [(''n'', Num (Fin 10))]) =
     Some (False, Obj [(''n'', Num (Fin 10))],
       [\<lparr>ename = ''n'', etype = ''string'', evalue = Str ''10'',
          edescription = ''length less than min''\<rparr>])"
  by code_simp

lemma revalidation_null:
  "validate host [ObjectSchema ''o'' [] None] (Obj [(''o'', Str ''null'')]) =
     Some (True, Obj [(''o'', Null)], []) \<and>
   validate host [ObjectSchema ''o'' [] None] (Obj [(''o'', Null)]) =
     Some (False, Obj [(''o'', Null)],
       [\<lparr>ename = ''o'', etype = ''object'', evalue = Null, edescription = ''not found''\<rparr>])"
  by code_simp

section \<open>The schema objects of the caller\<close>

text \<open>
  C9: validation never mutates a schema object of the caller.  Whatever the outcome of a
  run on the store (a verdict or a thrown error), the store after it holds every object
  of the store before it unchanged at its address, so also every \<open>elementType\<close> with
  its name; the run only adds objects behind them.  One call of the array checker on an
  array of elements without sub-schemas adds exactly one object, the copy of the element
  schema: it is that schema up to its name, which is an index of the array, and the last
  index when the call returns.
\<close>

theorem caller_schemas_unchanged:
  "(validate_s f B as d st = Some (r, st') \<longrightarrow> extends st st') \<and>
   (TypeChecker_s f B a d es p st = Some (rt, stt) \<longrightarrow> extends st stt) \<and>
   (lookup st a = Some (OArray n ea opt) \<and> lookup st ea = Some el \<and> is_oleaf el \<and>
    get n d = Some (Arr xs) \<and> TypeChecker_s f B a d es p st = Some (ra, sta) \<longrightarrow>
      (xs = [] \<longrightarrow> sta = st @ [el]) \<and>
      (xs \<noteq> [] \<longrightarrow>
         (\<exists>k<length xs. sta = st @ [oset_name (show_nat k) el]) \<and>
         (ra \<noteq> None \<longrightarrow> sta = st @ [oset_name (show_nat (length xs - 1)) el])))"
proof -
  have one: "validate_s f B as d st = Some (r, st') \<longrightarrow> extends st st'"
    unfolding validate_s_def
    using isValid_seq_s_frame [of f B True as d "[]" "[]" st r st'] TypeChecker_s_frame
    by blast
  have two: "TypeChecker_s f B a d es p st = Some (rt, stt) \<longrightarrow> extends st stt"
    using TypeChecker_s_frame by blast
  have three: "(xs = [] \<longrightarrow> sta = st @ [el]) \<and>
      (xs \<noteq> [] \<longrightarrow>
         (\<exists>k<length xs. sta = st @ [oset_name (show_nat k) el]) \<and>
         (ra \<noteq> None \<longrightarrow> sta = st @ [oset_name (show_nat (length xs - 1)) el]))"
    if h: "lookup st a = Some (OArray n ea opt)" "lookup st ea = Some el" "is_oleaf el"
      "get n d = Some (Arr xs)" "TypeChecker_s f B a d es p st = Some (ra, sta)"
  proof -
    from h(5) obtain g where f: "f = Suc g" by (cases f) simp_all
    let ?q = "if p \<noteq> [] then p @ ''.'' @ n @ ''['' else n @ ''[''"
    from h(4) have av: "array_value B n d es p = Inr (Arr xs, d)"
      by (simp add: array_value_def isArray_def)
    with h f have wb: "write_back n d
        (array_elements_s g B (length st) True [0..<length xs] (Arr xs) es ?q (st @ [el])) =
        Some (ra, sta)"
      by (simp add: clone_def elements_def)
    then obtain r3 where
      loop: "array_elements_s g B (length st) True [0..<length xs] (Arr xs) es ?q (st @ [el]) =
        Some (r3, sta)"
      by (auto dest: write_back_store)
    from wb loop have r3: "ra \<noteq> None \<longrightarrow> r3 \<noteq> None"
      by (auto simp: write_back_def split: option.splits)
    have upd: "(st @ [el])[length st := oset_name k ((st @ [el]) ! length st)] =
        st @ [oset_name k el]" for k
      by simp
    from array_elements_s_leaf [OF loop] h(3) r3
    show ?thesis
      by (cases "xs = []") (auto simp: upd last_upt)
  qed
  from one two three show ?thesis by blast
qed

theorem caller_schemas_unchanged_witness:
  "validate_s 2 host [0] (Obj [(''ids'', Arr [Str ''1'', Str ''x'', Str ''3''])])
     [OArray ''ids'' 1 None, ONumeric ''id'' TInt None None None] =
   Some (Some (False, Obj [(''ids'', Arr [Num (Fin 1), Str ''x'', Str ''3''])],
           [\<lparr>ename = ''ids[1]'', etype = ''int'', evalue = Str ''x'',
              edescription = ''not a number''\<rparr>]),
     [OArray ''ids'' 1 None, ONumeric ''id'' TInt None None None,
      ONumeric ''2'' TInt None None None]) \<and>
   extends [OArray ''ids'' 1 None, ONumeric ''id'' TInt None None None]
     [OArray ''ids'' 1 None, ONumeric ''id'' TInt None None None,
      ONumeric ''2'' TInt None None None] \<and>
   [OArray ''ids'' 1 None, ONumeric ''id'' TInt None None None,
      ONumeric ''2'' TInt None None None] =
   [OArray ''ids'' 1 None, ONumeric ''id'' TInt None None None] @
     [oset_name (show_nat (length [Str ''1'', Str ''x'', Str ''3''] - 1))
        (ONumeric ''id'' TInt None None None)]"
proof -
  let ?d = "Obj [(''ids'', Arr [Str ''1'', Str ''x'', Str ''3''])]"
  let ?st = "[OArray ''ids'' 1 None, ONumeric ''id'' TInt None None None]"
  let ?st' = "[OArray ''ids'' 1 None, ONumeric ''id'' TInt None None None,
      ONumeric ''2'' TInt None None None]"
  let ?r = "Some (False, Obj [(''ids'', Arr [Num (Fin 1), Str ''x'', Str ''3''])],
           [\<lparr>ename = ''ids[1]'', etype = ''int'', evalue = Str ''x'',
              edescription = ''not a number''\<rparr>])"
  have run: "validate_s 2 host [0] ?d ?st = Some (?r, ?st')" by code_simp
  have tc: "TypeChecker_s 2 host 0 ?d [] [] ?st = Some (?r, ?st')" by code_simp
  have l0: "lookup ?st 0 = Some (OArray ''ids'' 1 None)"
    and l1: "lookup ?st 1 = Some (ONumeric ''id'' TInt None None None)"
    by (simp_all add: lookup_def)
  have g: "get ''ids'' ?d = Some (Arr [Str ''1'', Str ''x'', Str ''3''])" by simp
  have sn: "show_nat (Suc (Suc 0)) = ''2''" by code_simp
  from caller_schemas_unchanged [where f = 2 and B = host and as = "[0]" and d = ?d
      and st = ?st and a = 0 and es = "[]" and p = "[]" and r = ?r and st' = ?st'
      and rt = ?r and stt = ?st' and ra = ?r and sta = ?st' and n = "''ids''" and ea = 1
      and opt = None and el = "ONumeric ''id'' TInt None None None"
      and xs = "[Str ''1'', Str ''x'', Str ''3'']"] run tc l0 l1 g
  show ?thesis by (simp add: sn)
qed

section \<open>The two models agree\<close>

text \<open>
  The store model computes what the value model computes.  When the addresses of a schema
  sequence spell out the schemas \<open>ss\<close> in the store and the recursion count covers their
  sizes, the run on the store ends, its outcome is the outcome of the value model on
  \<open>ss\<close> (the same verdict, bag and errors, or the same thrown error), and the store it
  leaves extends the store it started from.
\<close>

theorem store_model_agrees:
  assumes "schemas_at m st as = Some ss" and "\<forall>s\<in>set ss. ssize s \<le> f"
  shows "\<exists>st'. validate_s f B as d st = Some (validate B ss d, st') \<and> extends st st'"
proof -
  have "\<exists>st'. isValid_seq_s f B True as d [] [] st = Some (isValid_seq B True ss d [] [], st')"
    by (rule isValid_seq_s_agrees [OF _ assms]) (rule TypeChecker_s_agrees; assumption)
  then obtain st' where
    run: "isValid_seq_s f B True as d [] [] st = Some (isValid_seq B True ss d [] [], st')"
    by blast
  have "extends st st'"
    by (rule isValid_seq_s_frame [OF _ run]) (rule TypeChecker_s_frame)
  with run show ?thesis by (auto simp: validate_s_def validate_def)
qed

theorem store_model_agrees_witness:
  "validate_s 3 host [0, 3] (Obj [(''m'', Arr [Arr [Str ''1''], Str ''[2, 3]'']), (''b'', Str ''0'')])
     [OArray ''m'' 1 None, OArray ''row'' 2 None, ONumeric ''cell'' TInt None None None,
      OBoolean ''b'' None None] =
   Some (validate host
       [ArraySchema ''m'' (ArraySchema ''row'' (NumericSchema ''cell'' TInt None None None) None)
          None,
        BooleanSchema ''b'' None None]
       (Obj [(''m'', Arr [Arr [Str ''1''], Str ''[2, 3]'']), (''b'', Str ''0'')]),
     [OArray ''m'' 1 None, OArray ''row'' 2 None, ONumeric ''cell'' TInt None None None,
      OBoolean ''b'' None None, OArray ''1'' 2 None, ONumeric ''0'' TInt None None None,
      ONumeric ''1'' TInt None None None])"
proof -
  let ?st = "[OArray ''m'' 1 None, OArray ''row'' 2 None, ONumeric ''cell'' TInt None None None,
      OBoolean ''b'' None None]"
  let ?ss = "[ArraySchema ''m''
        (ArraySchema ''row'' (NumericSchema ''cell'' TInt None None None) None) None,
      BooleanSchema ''b'' None None]"
  let ?d = "Obj [(''m'', Arr [Arr [Str ''1''], Str ''[2, 3]'']), (''b'', Str ''0'')]"
  have rep: "schemas_at 3 ?st [0, 3] = Some ?ss" by code_simp
  have sz: "\<forall>s\<in>set ?ss. ssize s \<le> 3" by simp
  from store_model_agrees [OF rep sz, of host ?d] obtain st' where
    agree: "validate_s 3 host [0, 3] ?d ?st = Some (validate host ?ss ?d, st')" by blast
  have "map_option snd (validate_s 3 host [0, 3] ?d ?st) =
      Some [OArray ''m'' 1 None, OArray ''row'' 2 None, ONumeric ''cell'' TInt None None None,
        OBoolean ''b'' None None, OArray ''1'' 2 None, ONumeric ''0'' TInt None None None,
        ONumeric ''1'' TInt None None None]"
    by code_simp
  with agree show ?thesis by simp
qed

end
